theory Spec2Isabelle
  imports Complex_Main
begin

section \<open>Errors\<close>

text \<open>
  The exceptions of the program, as values. \<open>ValueError\<close> is what Python's \<open>range\<close>
  raises for a zero step and \<open>OSError\<close> what reading a file raises; \<open>Neo4jError\<close>
  stands for any exception of the graph driver, \<open>DatabaseError\<close> for any exception of
  the relational client.
\<close>

datatype error = ValueError | OSError | Neo4jError | DatabaseError

section \<open>The chunker\<close>

text \<open>
  \<^verbatim>\<open>
  def chunk(df, size=1000):
      for start in range(0, len(df), size):
          yield df.iloc[start : start + size]
  \<close>
  Python's \<open>range(start, stop, step)\<close> counts up for a positive step and down for a
  negative one, and raises for a zero step. The generator is modelled by the list of the
  batches it yields when it is consumed to its end, or by the error it raises then.
\<close>

function range_from :: "int \<Rightarrow> int \<Rightarrow> int \<Rightarrow> int list" where
  "range_from i stop step =
     (if (0 < step \<and> i < stop) \<or> (step < 0 \<and> stop < i)
      then i # range_from (i + step) stop step
      else [])"
  by pat_completeness auto
termination
  by (relation "measure (\<lambda>(i, stop, step). nat (if 0 < step then stop - i else i - stop))")
     auto

declare range_from.simps [simp del]

definition py_range :: "int \<Rightarrow> int \<Rightarrow> int \<Rightarrow> error + int list" where
  "py_range start stop step =
     (if step = 0 then Inl ValueError else Inr (range_from start stop step))"

text \<open>
  A bound of a slice: a negative bound counts from the end, and every bound is clipped to
  the collection.
\<close>

definition slice_index :: "nat \<Rightarrow> int \<Rightarrow> nat" where
  "slice_index n i = (if i < 0 then nat (max 0 (int n + i)) else min n (nat i))"

definition iloc :: "'a list \<Rightarrow> int \<Rightarrow> int \<Rightarrow> 'a list" where
  "iloc df start stop =
     drop (slice_index (length df) start) (take (slice_index (length df) stop) df)"

definition chunk :: "'a list \<Rightarrow> int \<Rightarrow> error + 'a list list" where
  "chunk df sz =
     (case py_range 0 (int (length df)) sz of
        Inl e \<Rightarrow> Inl e
      | Inr starts \<Rightarrow> Inr (map (\<lambda>start. iloc df start (start + sz)) starts))"

section \<open>The readiness gates\<close>

text \<open>
  \<^verbatim>\<open>
  def wait_for_postgres():
      while True:
          try:
              conn = psycopg2.connect(...)
              conn.close()
              print("Postgres is ready.")
              break
          except Exception as e:
              print(f"Waiting for Postgres... ({e})")
              time.sleep(PG_RETRY_SECONDS)
  \<close>
  The body of the \<open>try\<close> is the connectivity check. Its outcome at the \<open>k\<close>-th attempt
  (counted from 0) is given by \<open>check k\<close>: true when the body runs through, false when it
  raises. A gate records how many attempts it has made and for how many seconds it has
  slept. The loop has no bound, so it is a partial function: \<open>None\<close> is a gate that never
  returns. The printed lines are left out.
\<close>

definition PG_RETRY_SECONDS :: nat where
  "PG_RETRY_SECONDS = 2"

definition NEO4J_RETRY_SECONDS :: nat where
  "NEO4J_RETRY_SECONDS = 2"

record gate =
  attempts :: nat
  slept :: nat

definition gate_start :: gate where
  "gate_start = \<lparr>attempts = 0, slept = 0\<rparr>"

partial_function (option) wait_for_postgres_loop :: "(nat \<Rightarrow> bool) \<Rightarrow> gate \<Rightarrow> gate option" where
  "wait_for_postgres_loop check st =
     (if check (attempts st)
      then Some (st\<lparr>attempts := attempts st + 1\<rparr>)
      else wait_for_postgres_loop check
             (st\<lparr>attempts := attempts st + 1, slept := slept st + PG_RETRY_SECONDS\<rparr>))"

definition wait_for_postgres :: "(nat \<Rightarrow> bool) \<Rightarrow> gate option" where
  "wait_for_postgres check = wait_for_postgres_loop check gate_start"

partial_function (option) wait_for_neo4j_loop :: "(nat \<Rightarrow> bool) \<Rightarrow> gate \<Rightarrow> gate option" where
  "wait_for_neo4j_loop check st =
     (if check (attempts st)
      then Some (st\<lparr>attempts := attempts st + 1\<rparr>)
      else wait_for_neo4j_loop check
             (st\<lparr>attempts := attempts st + 1, slept := slept st + NEO4J_RETRY_SECONDS\<rparr>))"

definition wait_for_neo4j :: "(nat \<Rightarrow> bool) \<Rightarrow> gate option" where
  "wait_for_neo4j check = wait_for_neo4j_loop check gate_start"

section \<open>Source rows\<close>

text \<open>
  The tables read from the relational store, one record per row as
  \<open>df.to_dict("records")\<close> passes it on. The \<open>id\<close> columns are the tables' keys, so they
  always hold an integer; a foreign key, a name, a price, a date or an event type may be
  null (\<open>None\<close>). A value that is only copied into a property is a \<open>val\<close>; floating-point
  values are outside this model.
\<close>

datatype val = IntV int | StrV string

record category_row =
  cat_id :: int
  cat_name :: "val option"

record product_row =
  prod_id :: int
  prod_name :: "val option"
  prod_price :: "val option"
  prod_category_id :: "int option"

record customer_row =
  cust_id :: int
  cust_name :: "val option"
  cust_join_date :: "val option"

record order_row =
  ord_id :: int
  ord_customer_id :: "int option"
  ord_ts :: "val option"

record order_item_row =
  oi_order_id :: "int option"
  oi_product_id :: "int option"
  oi_quantity :: "val option"

record event_row =
  ev_customer_id :: "int option"
  ev_product_id :: "int option"
  ev_event_type :: "string option"
  ev_ts :: "val option"

record tables =
  customers :: "customer_row list"
  categories :: "category_row list"
  products :: "product_row list"
  orders :: "order_row list"
  order_items :: "order_item_row list"
  events :: "event_row list"

section \<open>The graph store\<close>

text \<open>
  The store holds nodes and relationships. The program creates both with \<open>MERGE\<close> only,
  which never makes a second node of a label and \<open>id\<close> nor a second relationship of a
  type between two nodes; so a node is identified by its label and \<open>id\<close>, a relationship
  by its start node, type and end node, and the store is a pair of maps from these keys to
  property maps.
\<close>

datatype label = Category | Product | Customer | Order

datatype rel_type = IN_CATEGORY | PLACED | CONTAINS | VIEW | CLICK | ADD_TO_CART

type_synonym props = "string \<rightharpoonup> val"

type_synonym node_key = "label \<times> int"

type_synonym rel_key = "node_key \<times> rel_type \<times> node_key"

record graph =
  nodes :: "node_key \<rightharpoonup> props"
  rels :: "rel_key \<rightharpoonup> props"

definition empty_graph :: graph where
  "empty_graph = \<lparr>nodes = Map.empty, rels = Map.empty\<rparr>"

subsection \<open>Cypher clauses\<close>

text \<open>
  \<open>MERGE (n:L {id: i})\<close> binds the node of label \<open>L\<close> and id \<open>i\<close>, creating it with
  that one property when the store has none.
\<close>

definition merge_node :: "label \<Rightarrow> int \<Rightarrow> graph \<Rightarrow> graph" where
  "merge_node l i g =
     (case nodes g (l, i) of
        None \<Rightarrow> g\<lparr>nodes := (nodes g)((l, i) \<mapsto> [''id'' \<mapsto> IntV i])\<rparr>
      | Some ps \<Rightarrow> g)"

text \<open>\<open>SET n.p = v\<close> on a bound node; setting a property to null removes it.\<close>

definition set_node :: "node_key \<Rightarrow> string \<Rightarrow> val option \<Rightarrow> graph \<Rightarrow> graph" where
  "set_node k p v g =
     (case nodes g k of
        None \<Rightarrow> g
      | Some ps \<Rightarrow> g\<lparr>nodes := (nodes g)(k \<mapsto> ps(p := v))\<rparr>)"

text \<open>
  \<open>MATCH (n:L {id: i})\<close> yields the bindings of \<open>n\<close>: none when no such node exists or
  when \<open>i\<close> is null, and then the clauses after it run for no record.
\<close>

definition match_node :: "label \<Rightarrow> int option \<Rightarrow> graph \<Rightarrow> node_key list" where
  "match_node l i g =
     (case i of
        None \<Rightarrow> []
      | Some j \<Rightarrow> (if nodes g (l, j) = None then [] else [(l, j)]))"

text \<open>\<open>MERGE (a)-[r:T]->(b)\<close> between two bound nodes.\<close>

definition merge_rel :: "node_key \<Rightarrow> rel_type \<Rightarrow> node_key \<Rightarrow> graph \<Rightarrow> graph" where
  "merge_rel a t b g =
     (case rels g (a, t, b) of
        None \<Rightarrow> g\<lparr>rels := (rels g)((a, t, b) \<mapsto> Map.empty)\<rparr>
      | Some ps \<Rightarrow> g)"

definition set_rel :: "rel_key \<Rightarrow> string \<Rightarrow> val option \<Rightarrow> graph \<Rightarrow> graph" where
  "set_rel k p v g =
     (case rels g k of
        None \<Rightarrow> g
      | Some ps \<Rightarrow> g\<lparr>rels := (rels g)(k \<mapsto> ps(p := v))\<rparr>)"

subsection \<open>The statements of the load phase, for one row\<close>

text \<open>
  \<^verbatim>\<open>
  MERGE (c:Category {id: row.id})
  SET c.name = row.name
  \<close>
\<close>

definition category_stmt :: "category_row \<Rightarrow> graph \<Rightarrow> graph" where
  "category_stmt row g =
     set_node (Category, cat_id row) ''name'' (cat_name row)
       (merge_node Category (cat_id row) g)"

text \<open>
  \<^verbatim>\<open>
  MERGE (p:Product {id: row.id})
  SET p.name = row.name,
      p.price = row.price
  WITH p, row
  MATCH (c:Category {id: row.category_id})
  MERGE (p)-[:IN_CATEGORY]->(c)
  \<close>
\<close>

definition product_stmt :: "product_row \<Rightarrow> graph \<Rightarrow> graph" where
  "product_stmt row g =
     (let p = (Product, prod_id row);
          g1 = merge_node Product (prod_id row) g;
          g2 = set_node p ''price'' (prod_price row) (set_node p ''name'' (prod_name row) g1)
      in fold (\<lambda>c. merge_rel p IN_CATEGORY c)
           (match_node Category (prod_category_id row) g2) g2)"

text \<open>
  \<^verbatim>\<open>
  MERGE (c:Customer {id: row.id})
  SET c.name = row.name,
      c.join_date = row.join_date
  \<close>
\<close>

definition customer_stmt :: "customer_row \<Rightarrow> graph \<Rightarrow> graph" where
  "customer_stmt row g =
     (let c = (Customer, cust_id row)
      in set_node c ''join_date'' (cust_join_date row)
           (set_node c ''name'' (cust_name row) (merge_node Customer (cust_id row) g)))"

text \<open>
  \<^verbatim>\<open>
  MERGE (o:Order {id: row.id})
  SET o.ts = row.ts
  WITH o, row
  MATCH (c:Customer {id: row.customer_id})
  MERGE (c)-[:PLACED]->(o)
  \<close>
\<close>

definition order_stmt :: "order_row \<Rightarrow> graph \<Rightarrow> graph" where
  "order_stmt row g =
     (let ord = (Order, ord_id row);
          g1 = set_node ord ''ts'' (ord_ts row) (merge_node Order (ord_id row) g)
      in fold (\<lambda>c. merge_rel c PLACED ord)
           (match_node Customer (ord_customer_id row) g1) g1)"

text \<open>
  \<^verbatim>\<open>
  MATCH (o:Order {id: row.order_id})
  MATCH (p:Product {id: row.product_id})
  MERGE (o)-[r:CONTAINS]->(p)
  SET r.quantity = row.quantity
  \<close>
\<close>

definition order_item_stmt :: "order_item_row \<Rightarrow> graph \<Rightarrow> graph" where
  "order_item_stmt row g =
     fold (\<lambda>(ord, p) h. set_rel (ord, CONTAINS, p) ''quantity'' (oi_quantity row)
                          (merge_rel ord CONTAINS p h))
       (List.product (match_node Order (oi_order_id row) g)
                     (match_node Product (oi_product_id row) g)) g"

text \<open>
  The three event statements differ in the relationship type only:
  \<^verbatim>\<open>
  MATCH (c:Customer {id: row.customer_id})
  MATCH (p:Product {id: row.product_id})
  MERGE (c)-[r:VIEW]->(p)
  SET r.ts = row.ts
  \<close>
\<close>

definition event_stmt :: "rel_type \<Rightarrow> event_row \<Rightarrow> graph \<Rightarrow> graph" where
  "event_stmt t row g =
     fold (\<lambda>(c, p) h. set_rel (c, t, p) ''ts'' (ev_ts row) (merge_rel c t p h))
       (List.product (match_node Customer (ev_customer_id row) g)
                     (match_node Product (ev_product_id row) g)) g"

subsection \<open>Statements sent to the store\<close>

text \<open>
  A statement of the schema file, or one of the nine bulk statements with its \<open>$rows\<close>
  parameter. \<open>UNWIND $rows AS row\<close> runs the row statement for each row, in order.
\<close>

datatype stmt =
    Schema string
  | Categories "category_row list"
  | Products "product_row list"
  | Customers "customer_row list"
  | Orders "order_row list"
  | OrderItems "order_item_row list"
  | Views "event_row list"
  | Clicks "event_row list"
  | AddToCarts "event_row list"

fun exec_stmt :: "(string \<Rightarrow> graph \<Rightarrow> graph) \<Rightarrow> stmt \<Rightarrow> graph \<Rightarrow> graph" where
  "exec_stmt schema (Schema text) g = schema text g"
| "exec_stmt schema (Categories rows) g = fold category_stmt rows g"
| "exec_stmt schema (Products rows) g = fold product_stmt rows g"
| "exec_stmt schema (Customers rows) g = fold customer_stmt rows g"
| "exec_stmt schema (Orders rows) g = fold order_stmt rows g"
| "exec_stmt schema (OrderItems rows) g = fold order_item_stmt rows g"
| "exec_stmt schema (Views rows) g = fold (event_stmt VIEW) rows g"
| "exec_stmt schema (Clicks rows) g = fold (event_stmt CLICK) rows g"
| "exec_stmt schema (AddToCarts rows) g = fold (event_stmt ADD_TO_CART) rows g"

section \<open>The run: connections, calls and exceptions\<close>

text \<open>
  The calls the program makes to the two stores. The world is the graph store, the calls
  made so far (a call that raises is recorded too) and which connections are open. An
  action returns a value or the exception it raises, and the world it leaves.
\<close>

datatype call = Connect | Driver | ReadSql string | Run stmt

record world =
  store :: graph
  trace :: "call list"
  pg_conn_open :: bool
  driver_open :: bool
  session_open :: bool

type_synonym 'a io = "world \<Rightarrow> (error + 'a) \<times> world"

text \<open>
  What the program is given: the text of \<open>queries.cypher\<close> (\<open>None\<close> when the file cannot
  be read) and what each of its statements does to the store, the tables of the relational
  store, the outcomes of the connectivity checks, and which calls raise: \<open>raises env h c\<close>
  holds when call \<open>c\<close>, made after the calls \<open>h\<close>, raises.
\<close>

record env =
  schema_file :: "string option"
  schema_effect :: "string \<Rightarrow> graph \<Rightarrow> graph"
  source :: tables
  pg_check :: "nat \<Rightarrow> bool"
  neo4j_check :: "nat \<Rightarrow> bool"
  raises :: "call list \<Rightarrow> call \<Rightarrow> bool"

definition succeed :: "'a \<Rightarrow> 'a io" where
  "succeed x w = (Inr x, w)"

definition raise :: "error \<Rightarrow> 'a io" where
  "raise e w = (Inl e, w)"

definition and_then :: "'a io \<Rightarrow> ('a \<Rightarrow> 'b io) \<Rightarrow> 'b io" where
  "and_then m f w =
     (case m w of
        (Inl e, w') \<Rightarrow> (Inl e, w')
      | (Inr x, w') \<Rightarrow> f x w')"

text \<open>A \<open>for\<close> loop whose body may raise: the first exception ends the loop.\<close>

fun for_each :: "('a \<Rightarrow> unit io) \<Rightarrow> 'a list \<Rightarrow> unit io" where
  "for_each body [] w = (Inr (), w)"
| "for_each body (x # xs) w =
     (case body x w of
        (Inl e, w') \<Rightarrow> (Inl e, w')
      | (Inr u, w') \<Rightarrow> for_each body xs w')"

text \<open>\<open>try: m finally: fin\<close>, for a \<open>fin\<close> that does not raise.\<close>

definition try_finally :: "'a io \<Rightarrow> (world \<Rightarrow> world) \<Rightarrow> 'a io" where
  "try_finally m fin w = (case m w of (r, w') \<Rightarrow> (r, fin w'))"

text \<open>
  \<open>session.run(query, parameters)\<close>: the statement runs in a transaction of its own, so
  a statement that raises leaves the store as it was.
\<close>

definition session_run :: "env \<Rightarrow> stmt \<Rightarrow> unit io" where
  "session_run env q w =
     (if raises env (trace w) (Run q)
      then (Inl Neo4jError, w\<lparr>trace := trace w @ [Run q]\<rparr>)
      else (Inr (), w\<lparr>store := exec_stmt (schema_effect env) q (store w),
                       trace := trace w @ [Run q]\<rparr>))"

text \<open>\<open>pd.read_sql("SELECT * FROM <table>", pg_conn)\<close>.\<close>

definition read_sql :: "env \<Rightarrow> string \<Rightarrow> (tables \<Rightarrow> 'a list) \<Rightarrow> ('a list) io" where
  "read_sql env table rows w =
     (if raises env (trace w) (ReadSql table)
      then (Inl DatabaseError, w\<lparr>trace := trace w @ [ReadSql table]\<rparr>)
      else (Inr (rows (source env)), w\<lparr>trace := trace w @ [ReadSql table]\<rparr>))"

section \<open>The schema loader\<close>

text \<open>
  \<^verbatim>\<open>
  def run_cypher_file(session, path: Path):
      text = path.read_text(encoding="utf-8")
      statements = [s.strip() for s in text.split(";") if s.strip()]
      for stmt in statements:
          session.run(stmt)
  \<close>
  A character is a code point below 256; \<open>isspace\<close> lists the ones \<open>str.strip\<close> removes.
\<close>

definition isspace :: "char \<Rightarrow> bool" where
  "isspace c = (of_char c \<in> {9, 10, 11, 12, 13, 28, 29, 30, 31, 32, 133, 160 :: nat})"

definition strip :: "string \<Rightarrow> string" where
  "strip s = rev (dropWhile isspace (rev (dropWhile isspace s)))"

fun split :: "char \<Rightarrow> string \<Rightarrow> string list" where
  "split sep [] = [[]]"
| "split sep (c # cs) =
     (if c = sep then [] # split sep cs
      else (case split sep cs of
              [] \<Rightarrow> [[c]]
            | s # ss \<Rightarrow> (c # s) # ss))"

text \<open>\<open>sep.join(parts)\<close>, which undoes \<open>split\<close>.\<close>

fun join :: "string \<Rightarrow> string list \<Rightarrow> string" where
  "join sep [] = []"
| "join sep [s] = s"
| "join sep (s # t # ss) = s @ sep @ join sep (t # ss)"

definition statements :: "string \<Rightarrow> string list" where
  "statements text = map strip (filter (\<lambda>s. strip s \<noteq> []) (split (CHR '';'') text))"

definition run_cypher_file :: "env \<Rightarrow> unit io" where
  "run_cypher_file env =
     (case schema_file env of
        None \<Rightarrow> raise OSError
      | Some text \<Rightarrow> for_each (\<lambda>stmt. session_run env (Schema stmt)) (statements text))"

section \<open>The ETL\<close>

text \<open>
  Each table is loaded by the same loop, with its own statement:
  \<^verbatim>\<open>
  for df in chunk(categories, 100):
      session.run("""UNWIND $rows AS row ...""", {"rows": df.to_dict("records")})
  \<close>
\<close>

definition load_table :: "env \<Rightarrow> ('a list \<Rightarrow> stmt) \<Rightarrow> 'a list \<Rightarrow> unit io" where
  "load_table env query df =
     (case chunk df 100 of
        Inl e \<Rightarrow> raise e
      | Inr dfs \<Rightarrow> for_each (\<lambda>d. session_run env (query d)) dfs)"

text \<open>\<open>events[events["event_type"] == t]\<close>; a null event type equals no string.\<close>

definition events_of_type :: "string \<Rightarrow> event_row list \<Rightarrow> event_row list" where
  "events_of_type t evs = filter (\<lambda>e. ev_event_type e = Some t) evs"

text \<open>Steps 3 to 8 of \<open>etl\<close>: the load phase.\<close>

definition load_phase :: "env \<Rightarrow> tables \<Rightarrow> unit io" where
  "load_phase env t =
     and_then (load_table env Categories (categories t)) (\<lambda>_.
     and_then (load_table env Products (products t)) (\<lambda>_.
     and_then (load_table env Customers (customers t)) (\<lambda>_.
     and_then (load_table env Orders (orders t)) (\<lambda>_.
     and_then (load_table env OrderItems (order_items t)) (\<lambda>_.
     and_then (load_table env Views (events_of_type ''view'' (events t))) (\<lambda>_.
     and_then (load_table env Clicks (events_of_type ''click'' (events t))) (\<lambda>_.
     load_table env AddToCarts (events_of_type ''add_to_cart'' (events t)))))))))"

text \<open>Step 2 of \<open>etl\<close>: the six full-table reads.\<close>

definition extract_tables :: "env \<Rightarrow> tables io" where
  "extract_tables env =
     and_then (read_sql env ''customers'' customers) (\<lambda>cu.
     and_then (read_sql env ''categories'' categories) (\<lambda>ca.
     and_then (read_sql env ''products'' products) (\<lambda>pr.
     and_then (read_sql env ''orders'' orders) (\<lambda>od.
     and_then (read_sql env ''order_items'' order_items) (\<lambda>oi.
     and_then (read_sql env ''events'' events) (\<lambda>ev.
     succeed \<lparr>customers = cu, categories = ca, products = pr, orders = od,
              order_items = oi, events = ev\<rparr>))))))"

text \<open>\<open>with driver.session() as session: ...\<close>: the session is closed however the block ends.\<close>

definition with_session :: "'a io \<Rightarrow> 'a io" where
  "with_session m w =
     try_finally m (\<lambda>w'. w'\<lparr>session_open := False\<rparr>) (w\<lparr>session_open := True\<rparr>)"

text \<open>
  The guarded part of \<open>etl\<close>:
  \<^verbatim>\<open>
  try:
      with driver.session() as session:
          run_cypher_file(session, queries_path)
          ... extract ... load ...
  finally:
      pg_conn.close()
      driver.close()
  \<close>
\<close>

definition etl_guarded :: "env \<Rightarrow> unit io" where
  "etl_guarded env =
     try_finally
       (with_session
          (and_then (run_cypher_file env) (\<lambda>_.
           and_then (extract_tables env) (\<lambda>t.
           load_phase env t))))
       (\<lambda>w. w\<lparr>pg_conn_open := False, driver_open := False\<rparr>)"

text \<open>The two connections \<open>etl\<close> opens before the guarded part.\<close>

definition connect_postgres :: "env \<Rightarrow> unit io" where
  "connect_postgres env w =
     (if raises env (trace w) Connect
      then (Inl DatabaseError, w\<lparr>trace := trace w @ [Connect]\<rparr>)
      else (Inr (), w\<lparr>trace := trace w @ [Connect], pg_conn_open := True\<rparr>))"

definition open_driver :: "env \<Rightarrow> unit io" where
  "open_driver env w =
     (if raises env (trace w) Driver
      then (Inl Neo4jError, w\<lparr>trace := trace w @ [Driver]\<rparr>)
      else (Inr (), w\<lparr>trace := trace w @ [Driver], driver_open := True\<rparr>))"

text \<open>The whole of \<open>etl\<close>; \<open>None\<close> when a readiness gate never lets it pass.\<close>

definition etl :: "env \<Rightarrow> world \<Rightarrow> ((error + unit) \<times> world) option" where
  "etl env w =
     (case wait_for_postgres (pg_check env) of
        None \<Rightarrow> None
      | Some g1 \<Rightarrow>
          (case wait_for_neo4j (neo4j_check env) of
             None \<Rightarrow> None
           | Some g2 \<Rightarrow>
               Some (and_then (connect_postgres env) (\<lambda>_.
                     and_then (open_driver env) (\<lambda>_.
                     etl_guarded env)) w)))"

section \<open>The order of the calls\<close>

text \<open>
  The step of \<open>etl\<close> a call belongs to, numbered as in the comments of the source:
  1 the schema, 2 the extraction, 3 categories, 4 products, 5 customers, 6 orders,
  7 order items, 8 events; 0 for the two connections, which come before the steps.
\<close>

fun load_step :: "call \<Rightarrow> nat" where
  "load_step Connect = 0"
| "load_step Driver = 0"
| "load_step (Run (Schema text)) = 1"
| "load_step (ReadSql table) = 2"
| "load_step (Run (Categories rows)) = 3"
| "load_step (Run (Products rows)) = 4"
| "load_step (Run (Customers rows)) = 5"
| "load_step (Run (Orders rows)) = 6"
| "load_step (Run (OrderItems rows)) = 7"
| "load_step (Run (Views rows)) = 8"
| "load_step (Run (Clicks rows)) = 8"
| "load_step (Run (AddToCarts rows)) = 8"

text \<open>
  An action emits steps \<open>lo\<close> to \<open>hi\<close> when the calls it adds to the trace, whatever its
  result, are in step order and all of steps \<open>lo\<close> to \<open>hi\<close>.
\<close>

definition emits :: "nat \<Rightarrow> nat \<Rightarrow> 'a io \<Rightarrow> bool" where
  "emits lo hi m =
     (\<forall>w r w'. m w = (r, w') \<longrightarrow>
        (\<exists>tr. trace w' = trace w @ tr \<and> sorted (map load_step tr)
              \<and> (\<forall>c \<in> set tr. lo \<le> load_step c \<and> load_step c \<le> hi)))"

text \<open>
  The order the claims ask for, on the calls added by a run: every category upsert (step 3)
  comes before every product upsert (step 4), every customer upsert (step 5) before every
  order upsert (step 6), and every product, customer and order upsert before every
  order-item and event upsert (steps 7 and 8).
\<close>

definition in_load_order :: "call list \<Rightarrow> bool" where
  "in_load_order tr =
     ((\<forall>i j. i < length tr \<and> j < length tr
          \<and> load_step (tr ! i) = 3 \<and> load_step (tr ! j) = 4 \<longrightarrow> i < j)
    \<and> (\<forall>i j. i < length tr \<and> j < length tr
          \<and> load_step (tr ! i) = 5 \<and> load_step (tr ! j) = 6 \<longrightarrow> i < j)
    \<and> (\<forall>i j. i < length tr \<and> j < length tr
          \<and> load_step (tr ! i) \<in> {4, 5, 6} \<and> load_step (tr ! j) \<in> {7, 8} \<longrightarrow> i < j))"

section \<open>A load phase in which no call raises\<close>

text \<open>
  The batches of a table, the calls of a load phase that runs to its end, and the store it
  leaves: each table's row statements in row order, the tables in the order of the source.
\<close>

definition batches :: "'a list \<Rightarrow> 'a list list" where
  "batches df = (case chunk df 100 of Inl e \<Rightarrow> [] | Inr dfs \<Rightarrow> dfs)"

definition load_calls :: "tables \<Rightarrow> call list" where
  "load_calls t =
     map (\<lambda>d. Run (Categories d)) (batches (categories t))
     @ map (\<lambda>d. Run (Products d)) (batches (products t))
     @ map (\<lambda>d. Run (Customers d)) (batches (customers t))
     @ map (\<lambda>d. Run (Orders d)) (batches (orders t))
     @ map (\<lambda>d. Run (OrderItems d)) (batches (order_items t))
     @ map (\<lambda>d. Run (Views d)) (batches (events_of_type ''view'' (events t)))
     @ map (\<lambda>d. Run (Clicks d)) (batches (events_of_type ''click'' (events t)))
     @ map (\<lambda>d. Run (AddToCarts d)) (batches (events_of_type ''add_to_cart'' (events t)))"

definition load_events :: "event_row list \<Rightarrow> graph \<Rightarrow> graph" where
  "load_events evs g =
     fold (event_stmt ADD_TO_CART) (events_of_type ''add_to_cart'' evs)
    (fold (event_stmt CLICK) (events_of_type ''click'' evs)
    (fold (event_stmt VIEW) (events_of_type ''view'' evs) g))"

definition load_store :: "tables \<Rightarrow> graph \<Rightarrow> graph" where
  "load_store t g =
     load_events (events t)
    (fold order_item_stmt (order_items t)
    (fold order_stmt (orders t)
    (fold customer_stmt (customers t)
    (fold product_stmt (products t)
    (fold category_stmt (categories t) g)))))"

section \<open>The store, key by key\<close>

text \<open>
  What an upsert does to the properties under one key: it starts from the properties there,
  or from \<open>init\<close> when the key is new, and sets the row's values. \<open>touches\<close> runs the
  rows of a table past one key, in row order; \<open>hit\<close> tells which rows upsert that key.
\<close>

definition touch :: "props \<Rightarrow> (props \<Rightarrow> props) \<Rightarrow> props option \<Rightarrow> props option" where
  "touch init f v = Some (f (case v of None \<Rightarrow> init | Some ps \<Rightarrow> ps))"

definition touches ::
  "('r \<Rightarrow> bool) \<Rightarrow> ('r \<Rightarrow> props) \<Rightarrow> ('r \<Rightarrow> props \<Rightarrow> props) \<Rightarrow> 'r list \<Rightarrow> props option \<Rightarrow> props option"
where
  "touches hit init f rows v =
     fold (\<lambda>r u. if hit r then touch (init r) (f r) u else u) rows v"

text \<open>The ids of the nodes of a label.\<close>

definition ids :: "label \<Rightarrow> graph \<Rightarrow> int set" where
  "ids l g = {i. nodes g (l, i) \<noteq> None}"

text \<open>
  The relationship an event row stands for: its kind by the row's type, between the row's
  customer and product; none when the type is not one of the three or an endpoint is null.
\<close>

definition event_kind :: "event_row \<Rightarrow> rel_type option" where
  "event_kind e =
     (if ev_event_type e = Some ''view'' then Some VIEW
      else if ev_event_type e = Some ''click'' then Some CLICK
      else if ev_event_type e = Some ''add_to_cart'' then Some ADD_TO_CART
      else None)"

definition event_key :: "event_row \<Rightarrow> rel_key option" where
  "event_key e =
     (case (event_kind e, ev_customer_id e, ev_product_id e) of
        (Some t, Some c, Some p) \<Rightarrow> Some ((Customer, c), t, (Product, p))
      | _ \<Rightarrow> None)"

definition event_edges :: "graph \<Rightarrow> rel_key set" where
  "event_edges g = {k \<in> dom (rels g). fst (snd k) \<in> {VIEW, CLICK, ADD_TO_CART}}"

text \<open>
  Which rows upsert a given relationship key, given the ids of the nodes in the store when
  the table is loaded; the ids each label has in the tables; and, key by key, the node and
  the relationship a load phase leaves, from the value before it.
\<close>

definition in_category_key :: "int set \<Rightarrow> product_row \<Rightarrow> rel_key \<Rightarrow> bool" where
  "in_category_key cs r k =
     (\<exists>c. prod_category_id r = Some c \<and> c \<in> cs
          \<and> k = ((Product, prod_id r), IN_CATEGORY, (Category, c)))"

definition placed_key :: "int set \<Rightarrow> order_row \<Rightarrow> rel_key \<Rightarrow> bool" where
  "placed_key cs r k =
     (\<exists>c. ord_customer_id r = Some c \<and> c \<in> cs
          \<and> k = ((Customer, c), PLACED, (Order, ord_id r)))"

definition contains_key :: "int set \<Rightarrow> int set \<Rightarrow> order_item_row \<Rightarrow> rel_key \<Rightarrow> bool" where
  "contains_key os ps r k =
     (\<exists>a p. oi_order_id r = Some a \<and> oi_product_id r = Some p \<and> a \<in> os \<and> p \<in> ps
          \<and> k = ((Order, a), CONTAINS, (Product, p)))"

definition event_hit :: "int set \<Rightarrow> int set \<Rightarrow> rel_type \<Rightarrow> event_row \<Rightarrow> rel_key \<Rightarrow> bool" where
  "event_hit cs ps t r k =
     (\<exists>c p. ev_customer_id r = Some c \<and> ev_product_id r = Some p \<and> c \<in> cs \<and> p \<in> ps
          \<and> k = ((Customer, c), t, (Product, p)))"

definition table_ids :: "label \<Rightarrow> tables \<Rightarrow> int set" where
  "table_ids l t =
     (case l of
        Category \<Rightarrow> cat_id ` set (categories t)
      | Product \<Rightarrow> prod_id ` set (products t)
      | Customer \<Rightarrow> cust_id ` set (customers t)
      | Order \<Rightarrow> ord_id ` set (orders t))"

definition node_after :: "tables \<Rightarrow> node_key \<Rightarrow> props option \<Rightarrow> props option" where
  "node_after t k v =
     touches (\<lambda>r. k = (Order, ord_id r)) (\<lambda>r. [''id'' \<mapsto> IntV (ord_id r)])
       (\<lambda>r ps. ps(''ts'' := ord_ts r)) (orders t)
    (touches (\<lambda>r. k = (Customer, cust_id r)) (\<lambda>r. [''id'' \<mapsto> IntV (cust_id r)])
       (\<lambda>r ps. ps(''name'' := cust_name r, ''join_date'' := cust_join_date r)) (customers t)
    (touches (\<lambda>r. k = (Product, prod_id r)) (\<lambda>r. [''id'' \<mapsto> IntV (prod_id r)])
       (\<lambda>r ps. ps(''name'' := prod_name r, ''price'' := prod_price r)) (products t)
    (touches (\<lambda>r. k = (Category, cat_id r)) (\<lambda>r. [''id'' \<mapsto> IntV (cat_id r)])
       (\<lambda>r ps. ps(''name'' := cat_name r)) (categories t) v)))"

definition events_after ::
  "int set \<Rightarrow> int set \<Rightarrow> event_row list \<Rightarrow> rel_key \<Rightarrow> props option \<Rightarrow> props option"
where
  "events_after custs prods evs k v =
     touches (\<lambda>r. event_hit custs prods ADD_TO_CART r k) (\<lambda>r. Map.empty)
       (\<lambda>r ps. ps(''ts'' := ev_ts r)) (events_of_type ''add_to_cart'' evs)
    (touches (\<lambda>r. event_hit custs prods CLICK r k) (\<lambda>r. Map.empty)
       (\<lambda>r ps. ps(''ts'' := ev_ts r)) (events_of_type ''click'' evs)
    (touches (\<lambda>r. event_hit custs prods VIEW r k) (\<lambda>r. Map.empty)
       (\<lambda>r ps. ps(''ts'' := ev_ts r)) (events_of_type ''view'' evs) v))"

definition rel_after ::
  "(label \<Rightarrow> int set) \<Rightarrow> tables \<Rightarrow> rel_key \<Rightarrow> props option \<Rightarrow> props option"
where
  "rel_after ns t k v =
     events_after (ns Customer) (ns Product) (events t) k
    (touches (\<lambda>r. contains_key (ns Order) (ns Product) r k) (\<lambda>r. Map.empty)
       (\<lambda>r ps. ps(''quantity'' := oi_quantity r)) (order_items t)
    (touches (\<lambda>r. placed_key (ns Customer) r k) (\<lambda>r. Map.empty) (\<lambda>r ps. ps) (orders t)
    (touches (\<lambda>r. in_category_key (ns Category) r k) (\<lambda>r. Map.empty) (\<lambda>r ps. ps)
       (products t) v)))"

section \<open>Missing endpoints\<close>

text \<open>
  The endpoint a row names is missing from the store when the key is null or no node of
  that label has that id.
\<close>

definition missing :: "label \<Rightarrow> int option \<Rightarrow> graph \<Rightarrow> bool" where
  "missing l i g = (case i of None \<Rightarrow> True | Some j \<Rightarrow> nodes g (l, j) = None)"

section \<open>Sample inputs\<close>

text \<open>
  A world with an empty store and both connections open, as the guarded part of \<open>etl\<close>
  finds it on a first run, empty tables, and an environment built from a schema text, the
  tables and the calls that raise. Its schema statements leave nodes and relationships alone
  and its connectivity checks succeed at once.
\<close>

definition fresh_world :: world where
  "fresh_world =
     \<lparr>store = empty_graph, trace = [], pg_conn_open = True, driver_open = True,
      session_open = False\<rparr>"

definition no_tables :: tables where
  "no_tables =
     \<lparr>customers = [], categories = [], products = [], orders = [], order_items = [],
      events = []\<rparr>"

definition sample_env :: "string \<Rightarrow> tables \<Rightarrow> (call list \<Rightarrow> call \<Rightarrow> bool) \<Rightarrow> env" where
  "sample_env text t r =
     \<lparr>schema_file = Some text, schema_effect = (\<lambda>s g. g), source = t,
      pg_check = (\<lambda>k. True), neo4j_check = (\<lambda>k. True), raises = r\<rparr>"

text \<open>
  A small shop: one category, one product in it, one customer, one order of that customer
  holding three of the product, and one view of the product by the customer.
\<close>

definition shop_tables :: tables where
  "shop_tables =
     \<lparr>customers = [\<lparr>cust_id = 1, cust_name = Some (StrV ''Ann''),
                    cust_join_date = Some (StrV ''2024-01-01'')\<rparr>],
      categories = [\<lparr>cat_id = 10, cat_name = Some (StrV ''Books'')\<rparr>],
      products = [\<lparr>prod_id = 100, prod_name = Some (StrV ''Atlas''), prod_price = Some (IntV 5),
                   prod_category_id = Some 10\<rparr>],
      orders = [\<lparr>ord_id = 1000, ord_customer_id = Some 1, ord_ts = Some (StrV ''2024-02-01'')\<rparr>],
      order_items = [\<lparr>oi_order_id = Some 1000, oi_product_id = Some 100,
                      oi_quantity = Some (IntV 3)\<rparr>],
      events = [\<lparr>ev_customer_id = Some 1, ev_product_id = Some 100,
                 ev_event_type = Some ''view'', ev_ts = Some (StrV ''2024-02-02'')\<rparr>]\<rparr>"

text \<open>
  A store holding one customer and one product, and the event table of a customer who
  viewed that product twice.
\<close>

definition shop_nodes :: graph where
  "shop_nodes =
     \<lparr>nodes = [(Customer, 1) \<mapsto> [''id'' \<mapsto> IntV 1], (Product, 100) \<mapsto> [''id'' \<mapsto> IntV 100]],
      rels = Map.empty\<rparr>"

definition two_views :: "event_row list" where
  "two_views =
     [\<lparr>ev_customer_id = Some 1, ev_product_id = Some 100, ev_event_type = Some ''view'',
       ev_ts = Some (StrV ''2024-02-02'')\<rparr>,
      \<lparr>ev_customer_id = Some 1, ev_product_id = Some 100, ev_event_type = Some ''view'',
       ev_ts = Some (StrV ''2024-02-03'')\<rparr>]"

text \<open>A view, a click and an add-to-cart of the same product by the same customer.\<close>

definition mixed_events :: "event_row list" where
  "mixed_events =
     [\<lparr>ev_customer_id = Some 1, ev_product_id = Some 100, ev_event_type = Some ''view'',
       ev_ts = Some (StrV ''2024-02-02'')\<rparr>,
      \<lparr>ev_customer_id = Some 1, ev_product_id = Some 100, ev_event_type = Some ''click'',
       ev_ts = Some (StrV ''2024-02-03'')\<rparr>,
      \<lparr>ev_customer_id = Some 1, ev_product_id = Some 100, ev_event_type = Some ''add_to_cart'',
       ev_ts = Some (StrV ''2024-02-04'')\<rparr>]"

(*THEOREMS*)

section \<open>Properties of the chunker\<close>

lemma range_from_pos_stop:
  "0 < step \<Longrightarrow> stop \<le> i \<Longrightarrow> range_from i stop step = []"
  by (simp add: range_from.simps [of i stop step])

lemma range_from_pos_step:
  "0 < step \<Longrightarrow> i < stop \<Longrightarrow> range_from i stop step = i # range_from (i + step) stop step"
  by (simp add: range_from.simps [of i stop step])

lemma range_from_neg_stop:
  "step < 0 \<Longrightarrow> i \<le> stop \<Longrightarrow> range_from i stop step = []"
  by (simp add: range_from.simps [of i stop step])

lemma ceil_step:
  fixes d s :: int
  assumes "0 < s" "0 < d"
  shows "nat ((d + s - 1) div s) = Suc (nat ((d - s + s - 1) div s))"
proof -
  have "(d + s - 1) div s = (d - 1) div s + 1"
    using assms by (metis add.commute add_diff_eq div_add_self1 less_irrefl)
  moreover have "0 \<le> (d - 1) div s"
    using assms by (simp add: pos_imp_zdiv_nonneg_iff)
  ultimately show ?thesis by simp
qed

lemma ceil_nonpos:
  fixes d s :: int
  assumes "0 < s" "d \<le> 0"
  shows "nat ((d + s - 1) div s) = 0"
proof -
  have "(d + s - 1) div s \<le> (s - 1) div s"
    using assms by (intro zdiv_mono1) simp_all
  also have "(s - 1) div s = 0"
    using assms by simp
  finally show ?thesis by simp
qed

lemma range_from_pos:
  "0 < step \<Longrightarrow>
   range_from i stop step =
     map (\<lambda>k. i + int k * step) [0..<nat ((stop - i + step - 1) div step)]"
proof (induction i stop step rule: range_from.induct)
  case (1 i stop step)
  show ?case
  proof (cases "i < stop")
    case False
    then show ?thesis
      using 1(2) by (simp add: range_from_pos_stop ceil_nonpos)
  next
    case True
    define n where "n = nat ((stop - (i + step) + step - 1) div step)"
    have s: "nat ((stop - i + step - 1) div step) = Suc n"
      using ceil_step [of step "stop - i"] True 1(2) by (simp add: n_def algebra_simps)
    have "range_from (i + step) stop step = map (\<lambda>k. i + step + int k * step) [0..<n]"
      using 1(1) True 1(2) by (simp add: n_def)
    then have "range_from i stop step = i # map (\<lambda>k. i + step + int k * step) [0..<n]"
      using True 1(2) by (simp add: range_from_pos_step)
    also have "\<dots> = map (\<lambda>k. i + int k * step) (0 # map Suc [0..<n])"
      by (simp add: algebra_simps)
    also have "0 # map Suc [0..<n] = [0..<Suc n]"
      by (simp add: upt_conv_Cons map_Suc_upt del: upt_Suc)
    finally show ?thesis by (simp only: s)
  qed
qed

lemma slice_index_nat: "slice_index n (int m) = min n m"
  by (simp add: slice_index_def)

lemma iloc_batch:
  "iloc df (int k * int s) (int k * int s + int s) = take s (drop (k * s) df)"
proof -
  have "int k * int s = int (k * s)" "int k * int s + int s = int (k * s + s)"
    by simp_all
  then have a: "slice_index (length df) (int k * int s) = min (length df) (k * s)"
    and b: "slice_index (length df) (int k * int s + int s) = min (length df) (k * s + s)"
    by (simp_all only: slice_index_nat)
  show ?thesis
    unfolding iloc_def a b
    by (simp add: drop_take min_def take_all_iff)
qed

lemma concat_batches:
  "concat (map (\<lambda>k. take s (drop (k * s) df)) [0..<n]) = take (n * s) df"
proof (induction n)
  case 0
  show ?case by simp
next
  case (Suc n)
  have "take (n * s) df @ take s (drop (n * s) df) = take (n * s + s) df"
    by (simp add: take_add)
  with Suc show ?case by (simp add: add.commute)
qed

lemma chunk_batches:
  assumes "0 < S"
  shows "chunk df S =
    Inr (map (\<lambda>k. take (nat S) (drop (k * nat S) df))
          [0..<nat ((int (length df) + S - 1) div S)])"
proof -
  obtain s where s: "S = int s" "0 < s"
    using assms by (cases S) simp_all
  show ?thesis
    using assms
    by (simp add: chunk_def py_range_def range_from_pos s iloc_batch [of df _ s, simplified] o_def)
qed


lemma ceil_div_int:
  fixes a s :: int
  assumes "0 < s"
  shows "\<lceil>real_of_int a / real_of_int s\<rceil> = (a + s - 1) div s"
proof -
  have "(a + s - 1) div s = - ((- a) div s)"
  proof -
    have "a + s - 1 = (- ((- a) div s)) * s + (s - 1 - (- a) mod s)"
      by (simp add: algebra_simps)
    moreover have "0 \<le> s - 1 - (- a) mod s" "s - 1 - (- a) mod s < s"
      using assms pos_mod_bound [of s "- a"] pos_mod_sign [of s "- a"] by linarith+
    ultimately show ?thesis
      by (metis div_pos_pos_trivial add.right_neutral div_mult_self3 assms less_irrefl add.commute)
  qed
  then show ?thesis by (simp add: ceiling_divide_eq_div)
qed

text \<open>
  Claim C1. For a batch size \<open>S > 0\<close> and a row collection of \<open>N\<close> rows, the chunker
  returns (it raises nothing) exactly \<open>\<lceil>N / S\<rceil>\<close> batches; every batch but the last has
  exactly \<open>S\<close> rows, no batch has more than \<open>S\<close> rows, and the batches concatenated in the
  order they are yielded are the row collection itself.
\<close>

theorem chunk_partition:
  assumes "0 < S"
  shows "\<exists>bs. chunk df S = Inr bs
    \<and> int (length bs) = \<lceil>real (length df) / real_of_int S\<rceil>
    \<and> (\<forall>k. Suc k < length bs \<longrightarrow> length (bs ! k) = nat S)
    \<and> (\<forall>b \<in> set bs. length b \<le> nat S)
    \<and> concat bs = df"
proof -
  obtain s where s: "S = int s" "0 < s"
    using assms by (cases S) simp_all
  define n where "n = (length df + s - 1) div s"
  define bs where "bs = map (\<lambda>k. take s (drop (k * s) df)) [0..<n]"
  have m: "int (length df) + int s - 1 = int (length df + s - 1)"
    using s(2) by (simp add: of_nat_diff)
  have cn: "(int (length df) + S - 1) div S = int n"
    unfolding s(1) m n_def by (simp add: zdiv_int)
  have c: "chunk df S = Inr bs"
    using chunk_batches [OF assms, of df] by (simp add: cn) (simp add: bs_def s(1))
  have len: "int (length bs) = \<lceil>real (length df) / real_of_int S\<rceil>"
    using ceil_div_int [OF assms, of "int (length df)"] by (simp add: cn bs_def)
  have lower: "n * s \<le> length df + s - 1"
    unfolding n_def by simp
  have upper: "length df + s - 1 < n * s + s"
    unfolding n_def using s(2) by (metis add.commute dividend_less_div_times mult.commute)
  have up: "length df \<le> n * s"
    using upper s(2) by linarith
  have lo: "k * s + s \<le> length df" if "Suc k < n" for k
  proof -
    have "Suc (Suc k) * s \<le> n * s"
      using that by (intro mult_le_mono1) simp
    then have "k * s + s + s \<le> length df + s - 1"
      using lower by simp
    then show ?thesis using s(2) by linarith
  qed
  have full: "\<forall>k. Suc k < length bs \<longrightarrow> length (bs ! k) = nat S"
  proof (intro allI impI)
    fix k assume k: "Suc k < length bs"
    then have "k * s + s \<le> length df" using lo by (simp add: bs_def)
    then have "min (length df - k * s) s = s" by linarith
    with k show "length (bs ! k) = nat S" by (simp add: bs_def s(1))
  qed
  have most: "\<forall>b \<in> set bs. length b \<le> nat S"
    by (auto simp: bs_def s(1))
  have "concat bs = df"
    using up by (simp add: bs_def concat_batches)
  with c len full most show ?thesis by blast
qed

theorem chunk_partition_witness:
  "(0::int) < 2 \<and> chunk [10, 20, 30, 40, 50 :: nat] 2 = Inr [[10, 20], [30, 40], [50]]
   \<and> \<lceil>real (length [10, 20, 30, 40, 50 :: nat]) / real_of_int 2\<rceil> = 3"
proof -
  have h: "(0::int) < 2" by simp
  obtain bs where bs: "chunk [10, 20, 30, 40, 50 :: nat] 2 = Inr bs"
    "int (length bs) = \<lceil>real (length [10, 20, 30, 40, 50 :: nat]) / real_of_int 2\<rceil>"
    using chunk_partition [OF h, of "[10, 20, 30, 40, 50 :: nat]"] by blast
  have "chunk [10, 20, 30, 40, 50 :: nat] 2 = Inr [[10, 20], [30, 40], [50]]"
    by (simp add: chunk_def py_range_def range_from.simps iloc_def slice_index_def)
  with bs h show ?thesis by simp
qed

text \<open>
  Claim C10. Outside the precondition \<open>S > 0\<close>: with batch size 0 consuming the chunker
  raises \<open>ValueError\<close> (the zero step of \<open>range\<close>), and with a negative batch size it
  yields no batch at all, whatever the rows are, so every row of a non-empty collection
  is lost.
\<close>

theorem chunk_outside_precondition:
  "chunk df 0 = Inl ValueError \<and> (S < 0 \<longrightarrow> chunk df S = Inr [])"
  by (simp add: chunk_def py_range_def range_from_neg_stop)

theorem chunk_outside_precondition_witness:
  "chunk [1, 2, 3 :: nat] 0 = Inl ValueError \<and> (- 2 :: int) < 0
   \<and> chunk [1, 2, 3 :: nat] (- 2) = Inr [] \<and> concat ([] :: nat list list) \<noteq> [1, 2, 3]"
  using chunk_outside_precondition [of "[1, 2, 3 :: nat]" "- 2"] by simp

section \<open>Properties of the readiness gates\<close>

lemma wait_for_postgres_loop_success:
  "check (attempts st + k) \<Longrightarrow> \<forall>j<k. \<not> check (attempts st + j) \<Longrightarrow>
   wait_for_postgres_loop check st =
     Some \<lparr>attempts = attempts st + k + 1, slept = slept st + PG_RETRY_SECONDS * k\<rparr>"
proof (induction k arbitrary: st)
  case 0
  then show ?case
    by (subst wait_for_postgres_loop.simps) simp
next
  case (Suc k)
  let ?st = "st\<lparr>attempts := attempts st + 1, slept := slept st + PG_RETRY_SECONDS\<rparr>"
  have n: "\<not> check (attempts st)"
    using Suc.prems(2) [rule_format, of 0] by simp
  have "check (attempts ?st + k)"
    using Suc.prems(1) by simp
  moreover have "\<forall>j<k. \<not> check (attempts ?st + j)"
  proof (intro allI impI)
    fix j assume "j < k"
    then show "\<not> check (attempts ?st + j)"
      using Suc.prems(2) [rule_format, of "Suc j"] by simp
  qed
  ultimately have "wait_for_postgres_loop check ?st =
     Some \<lparr>attempts = attempts ?st + k + 1, slept = slept ?st + PG_RETRY_SECONDS * k\<rparr>"
    by (rule Suc.IH)
  with n show ?case
    by (subst wait_for_postgres_loop.simps) simp
qed

lemma wait_for_postgres_loop_returns:
  assumes "wait_for_postgres_loop check st = Some st'"
  shows "\<exists>j. check j"
proof -
  have "\<exists>j. c j" if "wait_for_postgres_loop c s = Some s'" for c s s'
    using that
    by (rule wait_for_postgres_loop.raw_induct [where P = "\<lambda>c s s'. \<exists>j. c j", rotated])
       (auto split: if_splits)
  with assms show ?thesis by blast
qed

lemma wait_for_neo4j_loop_success:
  "check (attempts st + k) \<Longrightarrow> \<forall>j<k. \<not> check (attempts st + j) \<Longrightarrow>
   wait_for_neo4j_loop check st =
     Some \<lparr>attempts = attempts st + k + 1, slept = slept st + NEO4J_RETRY_SECONDS * k\<rparr>"
proof (induction k arbitrary: st)
  case 0
  then show ?case
    by (subst wait_for_neo4j_loop.simps) simp
next
  case (Suc k)
  let ?st = "st\<lparr>attempts := attempts st + 1, slept := slept st + NEO4J_RETRY_SECONDS\<rparr>"
  have n: "\<not> check (attempts st)"
    using Suc.prems(2) [rule_format, of 0] by simp
  have "check (attempts ?st + k)"
    using Suc.prems(1) by simp
  moreover have "\<forall>j<k. \<not> check (attempts ?st + j)"
  proof (intro allI impI)
    fix j assume "j < k"
    then show "\<not> check (attempts ?st + j)"
      using Suc.prems(2) [rule_format, of "Suc j"] by simp
  qed
  ultimately have "wait_for_neo4j_loop check ?st =
     Some \<lparr>attempts = attempts ?st + k + 1, slept = slept ?st + NEO4J_RETRY_SECONDS * k\<rparr>"
    by (rule Suc.IH)
  with n show ?case
    by (subst wait_for_neo4j_loop.simps) simp
qed

lemma wait_for_neo4j_loop_returns:
  assumes "wait_for_neo4j_loop check st = Some st'"
  shows "\<exists>j. check j"
proof -
  have "\<exists>j. c j" if "wait_for_neo4j_loop c s = Some s'" for c s s'
    using that
    by (rule wait_for_neo4j_loop.raw_induct [where P = "\<lambda>c s s'. \<exists>j. c j", rotated])
       (auto split: if_splits)
  with assms show ?thesis by blast
qed

text \<open>
  Claim C6. When the connectivity check first succeeds at attempt \<open>k\<close> (counted from 0,
  every earlier attempt failing), each gate returns after exactly \<open>k + 1\<close> attempts, having
  slept the fixed interval once after each of the \<open>k\<close> failures; its result is a gate
  state, never an error. A check that fails twice and then succeeds gives 3 attempts. When
  the check never succeeds, the gate never returns.
\<close>

theorem readiness_gate:
  "(check k \<and> (\<forall>j<k. \<not> check j) \<longrightarrow>
      wait_for_postgres check = Some \<lparr>attempts = k + 1, slept = PG_RETRY_SECONDS * k\<rparr>
    \<and> wait_for_neo4j check = Some \<lparr>attempts = k + 1, slept = NEO4J_RETRY_SECONDS * k\<rparr>)
   \<and> ((\<forall>j. \<not> check j) \<longrightarrow>
      wait_for_postgres check = None \<and> wait_for_neo4j check = None)"
proof (intro conjI impI)
  assume h: "check k \<and> (\<forall>j<k. \<not> check j)"
  show "wait_for_postgres check = Some \<lparr>attempts = k + 1, slept = PG_RETRY_SECONDS * k\<rparr>"
    using wait_for_postgres_loop_success [of check gate_start k] h
    by (simp add: wait_for_postgres_def gate_start_def)
  show "wait_for_neo4j check = Some \<lparr>attempts = k + 1, slept = NEO4J_RETRY_SECONDS * k\<rparr>"
    using wait_for_neo4j_loop_success [of check gate_start k] h
    by (simp add: wait_for_neo4j_def gate_start_def)
next
  assume n: "\<forall>j. \<not> check j"
  show "wait_for_postgres check = None"
    using wait_for_postgres_loop_returns [of check gate_start] n
    by (cases "wait_for_postgres check") (auto simp: wait_for_postgres_def)
  show "wait_for_neo4j check = None"
    using wait_for_neo4j_loop_returns [of check gate_start] n
    by (cases "wait_for_neo4j check") (auto simp: wait_for_neo4j_def)
qed

theorem readiness_gate_witness:
  "(\<lambda>n. 2 \<le> n) (2::nat) \<and> \<not> (\<lambda>n::nat. 2 \<le> n) 0 \<and> \<not> (\<lambda>n::nat. 2 \<le> n) 1
   \<and> wait_for_postgres (\<lambda>n. 2 \<le> n) = Some \<lparr>attempts = 3, slept = 4\<rparr>
   \<and> wait_for_neo4j (\<lambda>n. 2 \<le> n) = Some \<lparr>attempts = 3, slept = 4\<rparr>
   \<and> wait_for_postgres (\<lambda>n. False) = None \<and> wait_for_neo4j (\<lambda>n. False) = None"
proof -
  have a: "\<forall>j<2. \<not> (2::nat) \<le> j" by simp
  show ?thesis
    using readiness_gate [of "\<lambda>n. 2 \<le> n" 2] readiness_gate [of "\<lambda>n. False" 0] a
    by (simp add: PG_RETRY_SECONDS_def NEO4J_RETRY_SECONDS_def)
qed

section \<open>Properties of the schema loader\<close>

lemma split_not_Nil: "split sep s \<noteq> []"
  by (induction s) (auto split: list.splits)

lemma split_no_sep: "f \<in> set (split sep s) \<Longrightarrow> sep \<notin> set f"
proof (induction s arbitrary: f)
  case Nil
  then show ?case by simp
next
  case (Cons c cs)
  then show ?case
    by (cases "split sep cs") (auto simp: split_not_Nil split: if_splits)
qed

lemma strip_no_edge_space:
  "strip s \<noteq> [] \<Longrightarrow> \<not> isspace (hd (strip s)) \<and> \<not> isspace (last (strip s))"
proof -
  assume a: "strip s \<noteq> []"
  let ?t = "dropWhile isspace (rev (dropWhile isspace s))"
  have t: "?t \<noteq> []" using a by (simp add: strip_def)
  then have h: "\<not> isspace (hd ?t)" by (rule hd_dropWhile)
  have "dropWhile isspace s \<noteq> []" using t by (cases "dropWhile isspace s") simp_all
  then have f: "\<not> isspace (hd (dropWhile isspace s))" by (rule hd_dropWhile)
  have "last ?t = last (rev (dropWhile isspace s))"
    using t by (metis append_Nil2 last_appendR takeWhile_dropWhile_id)
  also have "\<dots> = hd (dropWhile isspace s)"
    using \<open>dropWhile isspace s \<noteq> []\<close> by (simp add: last_rev)
  finally have l: "\<not> isspace (last ?t)" using f by simp
  show ?thesis
    using t h l by (simp add: strip_def hd_rev last_rev)
qed

lemma strip_sub: "set (strip s) \<subseteq> set s"
  unfolding strip_def
  by (metis set_rev set_dropWhileD subsetI)

lemma strip_spaces: "\<forall>c \<in> set s. isspace c \<Longrightarrow> strip s = []"
proof -
  assume "\<forall>c \<in> set s. isspace c"
  then have d: "dropWhile isspace s = []" by (induction s) simp_all
  show ?thesis unfolding strip_def d by simp
qed


lemma statements_clean:
  "s \<in> set (statements text) \<Longrightarrow>
   s \<noteq> [] \<and> \<not> isspace (hd s) \<and> \<not> isspace (last s) \<and> CHR '';'' \<notin> set s"
proof -
  assume "s \<in> set (statements text)"
  then obtain f where f: "f \<in> set (split (CHR '';'') text)" "strip f \<noteq> []" "s = strip f"
    by (auto simp: statements_def)
  have "CHR '';'' \<notin> set f" using f(1) by (rule split_no_sep)
  then have "CHR '';'' \<notin> set s" using strip_sub [of f] f(3) by auto
  then show ?thesis using f(2,3) strip_no_edge_space [of f] by simp
qed

lemma for_each_map: "for_each (\<lambda>x. body (q x)) xs w = for_each body (map q xs) w"
  by (induction xs arbitrary: w) (auto split: prod.splits sum.splits)

lemma for_each_run_ok:
  "\<forall>i<length qs. \<not> raises env (trace w @ map Run (take i qs)) (Run (qs ! i)) \<Longrightarrow>
   for_each (session_run env) qs w =
     (Inr (), w\<lparr>store := fold (exec_stmt (schema_effect env)) qs (store w),
                 trace := trace w @ map Run qs\<rparr>)"
proof (induction qs arbitrary: w)
  case Nil
  show ?case by simp
next
  case (Cons q qs)
  let ?w = "w\<lparr>store := exec_stmt (schema_effect env) q (store w), trace := trace w @ [Run q]\<rparr>"
  have q: "\<not> raises env (trace w) (Run q)"
    using Cons.prems [rule_format, of 0] by simp
  have "\<forall>i<length qs. \<not> raises env (trace ?w @ map Run (take i qs)) (Run (qs ! i))"
  proof (intro allI impI)
    fix i assume "i < length qs"
    then show "\<not> raises env (trace ?w @ map Run (take i qs)) (Run (qs ! i))"
      using Cons.prems [rule_format, of "Suc i"] by simp
  qed
  then have "for_each (session_run env) qs ?w =
     (Inr (), ?w\<lparr>store := fold (exec_stmt (schema_effect env)) qs (store ?w),
                 trace := trace ?w @ map Run qs\<rparr>)"
    by (rule Cons.IH)
  moreover have "session_run env q w = (Inr (), ?w)"
    using q by (simp add: session_run_def)
  ultimately show ?case by simp
qed

lemma for_each_run_fail:
  "k < length qs \<Longrightarrow> raises env (trace w @ map Run (take k qs)) (Run (qs ! k)) \<Longrightarrow>
   \<forall>i<k. \<not> raises env (trace w @ map Run (take i qs)) (Run (qs ! i)) \<Longrightarrow>
   for_each (session_run env) qs w =
     (Inl Neo4jError, w\<lparr>store := fold (exec_stmt (schema_effect env)) (take k qs) (store w),
                         trace := trace w @ map Run (take (Suc k) qs)\<rparr>)"
proof (induction qs arbitrary: w k)
  case Nil
  then show ?case by simp
next
  case (Cons q qs)
  show ?case
  proof (cases k)
    case 0
    then have "session_run env q w = (Inl Neo4jError, w\<lparr>trace := trace w @ [Run q]\<rparr>)"
      using Cons.prems(2) by (simp add: session_run_def)
    with 0 show ?thesis by simp
  next
    case (Suc j)
    let ?w = "w\<lparr>store := exec_stmt (schema_effect env) q (store w), trace := trace w @ [Run q]\<rparr>"
    have q: "\<not> raises env (trace w) (Run q)"
      using Cons.prems(3) [rule_format, of 0] Suc by simp
    have j: "j < length qs" using Cons.prems(1) Suc by simp
    have r: "raises env (trace ?w @ map Run (take j qs)) (Run (qs ! j))"
      using Cons.prems(2) Suc by simp
    have "\<forall>i<j. \<not> raises env (trace ?w @ map Run (take i qs)) (Run (qs ! i))"
    proof (intro allI impI)
      fix i assume "i < j"
      then show "\<not> raises env (trace ?w @ map Run (take i qs)) (Run (qs ! i))"
        using Cons.prems(3) [rule_format, of "Suc i"] Suc by simp
    qed
    with j r have "for_each (session_run env) qs ?w =
     (Inl Neo4jError, ?w\<lparr>store := fold (exec_stmt (schema_effect env)) (take j qs) (store ?w),
                         trace := trace ?w @ map Run (take (Suc j) qs)\<rparr>)"
      by (rule Cons.IH)
    moreover have "session_run env q w = (Inr (), ?w)"
      using q by (simp add: session_run_def)
    ultimately show ?thesis using Suc by simp
  qed
qed


lemma join_split: "join [sep] (split sep s) = s"
proof (induction s)
  case Nil
  show ?case by simp
next
  case (Cons c cs)
  show ?case
  proof (cases "split sep cs")
    case Nil
    then show ?thesis using split_not_Nil [of sep cs] by simp
  next
    case (Cons f fs)
    with Cons.IH show ?thesis by (cases fs) auto
  qed
qed

text \<open>
  Claim C5. The schema loader splits the file text at every \<open>;\<close> (joining the fragments
  with \<open>;\<close> gives the text back), trims each fragment and drops the fragments that are
  empty once trimmed, so every statement is non-empty, starts and ends with a character
  that is not whitespace, and holds no \<open>;\<close>. It sends the statements in file order. When
  none raises, all are run; when the statement at position \<open>k\<close> is the first to raise, the
  loader raises, having run the \<open>k\<close> statements before it and attempted that one, and
  none after it.
\<close>

theorem run_cypher_file_sequential:
  assumes "schema_file env = Some text"
  shows "join '';'' (split (CHR '';'') text) = text
    \<and> statements text = filter (\<lambda>s. s \<noteq> []) (map strip (split (CHR '';'') text))
    \<and> (\<forall>s \<in> set (statements text).
          s \<noteq> [] \<and> \<not> isspace (hd s) \<and> \<not> isspace (last s) \<and> CHR '';'' \<notin> set s)
    \<and> ((\<forall>i<length (statements text).
            \<not> raises env (trace w @ map (\<lambda>s. Run (Schema s)) (take i (statements text)))
                 (Run (Schema (statements text ! i)))) \<longrightarrow>
         run_cypher_file env w =
           (Inr (), w\<lparr>store := fold (schema_effect env) (statements text) (store w),
                       trace := trace w @ map (\<lambda>s. Run (Schema s)) (statements text)\<rparr>))
    \<and> (k < length (statements text)
         \<and> raises env (trace w @ map (\<lambda>s. Run (Schema s)) (take k (statements text)))
                 (Run (Schema (statements text ! k)))
         \<and> (\<forall>i<k.
            \<not> raises env (trace w @ map (\<lambda>s. Run (Schema s)) (take i (statements text)))
                 (Run (Schema (statements text ! i)))) \<longrightarrow>
         run_cypher_file env w =
           (Inl Neo4jError,
            w\<lparr>store := fold (schema_effect env) (take k (statements text)) (store w),
              trace := trace w @ map (\<lambda>s. Run (Schema s)) (take (Suc k) (statements text))\<rparr>))"
proof -
  let ?qs = "map Schema (statements text)"
  have run: "run_cypher_file env w = for_each (session_run env) ?qs w"
    using assms by (simp add: run_cypher_file_def for_each_map)
  have fold_schema: "fold (exec_stmt (schema_effect env)) (map Schema ss) g = fold (schema_effect env) ss g"
    for ss g
    by (induction ss arbitrary: g) simp_all
  have a: "join '';'' (split (CHR '';'') text) = text"
    by (rule join_split)
  have b: "statements text = filter (\<lambda>s. s \<noteq> []) (map strip (split (CHR '';'') text))"
    by (simp add: statements_def filter_map o_def)
  have c: "\<forall>s \<in> set (statements text).
          s \<noteq> [] \<and> \<not> isspace (hd s) \<and> \<not> isspace (last s) \<and> CHR '';'' \<notin> set s"
    using statements_clean by blast
  have d: "run_cypher_file env w =
           (Inr (), w\<lparr>store := fold (schema_effect env) (statements text) (store w),
                       trace := trace w @ map (\<lambda>s. Run (Schema s)) (statements text)\<rparr>)"
    if "\<forall>i<length (statements text).
            \<not> raises env (trace w @ map (\<lambda>s. Run (Schema s)) (take i (statements text)))
                 (Run (Schema (statements text ! i)))"
  proof -
    have "\<forall>i<length ?qs. \<not> raises env (trace w @ map Run (take i ?qs)) (Run (?qs ! i))"
      using that by (simp add: take_map o_def)
    then show ?thesis
      unfolding run by (simp add: for_each_run_ok fold_schema o_def)
  qed
  have e: "run_cypher_file env w =
           (Inl Neo4jError,
            w\<lparr>store := fold (schema_effect env) (take k (statements text)) (store w),
              trace := trace w @ map (\<lambda>s. Run (Schema s)) (take (Suc k) (statements text))\<rparr>)"
    if "k < length (statements text)
         \<and> raises env (trace w @ map (\<lambda>s. Run (Schema s)) (take k (statements text)))
                 (Run (Schema (statements text ! k)))
         \<and> (\<forall>i<k.
            \<not> raises env (trace w @ map (\<lambda>s. Run (Schema s)) (take i (statements text)))
                 (Run (Schema (statements text ! i))))"
  proof -
    have 1: "k < length ?qs" using that by simp
    have 2: "raises env (trace w @ map Run (take k ?qs)) (Run (?qs ! k))"
      using that by (simp add: take_map o_def)
    have 3: "\<forall>i<k. \<not> raises env (trace w @ map Run (take i ?qs)) (Run (?qs ! i))"
      using that by (simp add: take_map o_def)
    have 4: "take k ?qs = map Schema (take k (statements text))"
      by (simp add: take_map)
    show ?thesis
      unfolding run for_each_run_fail [OF 1 2 3] 4 fold_schema
      by (simp add: take_map o_def del: take_Suc_Cons)
  qed
  from a b c d e show ?thesis by blast
qed

theorem run_cypher_file_sequential_witness:
  "schema_file (sample_env ''A; ;B;C'' no_tables (\<lambda>h c. c = Run (Schema ''B''))) = Some ''A; ;B;C''
   \<and> statements ''A; ;B;C'' = [''A'', ''B'', ''C'']
   \<and> run_cypher_file (sample_env ''A; ;B;C'' no_tables (\<lambda>h c. c = Run (Schema ''B''))) fresh_world
       = (Inl Neo4jError, fresh_world\<lparr>trace := [Run (Schema ''A''), Run (Schema ''B'')]\<rparr>)
   \<and> run_cypher_file (sample_env ''A; ;B;C'' no_tables (\<lambda>h c. False)) fresh_world
       = (Inr (), fresh_world\<lparr>trace := [Run (Schema ''A''), Run (Schema ''B''), Run (Schema ''C'')]\<rparr>)"
proof -
  let ?t = "''A; ;B;C''"
  let ?e1 = "sample_env ?t no_tables (\<lambda>h c. c = Run (Schema ''B''))"
  let ?e2 = "sample_env ?t no_tables (\<lambda>h c. False)"
  have st: "statements ?t = [''A'', ''B'', ''C'']"
    by (simp add: statements_def strip_def isspace_def)
  have f: "schema_file (sample_env ?t no_tables r) = Some ?t" for r
    by (simp add: sample_env_def)
  have r1: "raises ?e1 h c \<longleftrightarrow> c = Run (Schema ''B'')" for h c
    by (simp add: sample_env_def)
  have r2: "\<not> raises ?e2 h c" for h c
    by (simp add: sample_env_def)
  have s1: "schema_effect ?e1 = (\<lambda>s g. g)" and s2: "schema_effect ?e2 = (\<lambda>s g. g)"
    by (simp_all add: sample_env_def)
  have h1: "1 < length (statements ?t)
     \<and> raises ?e1 (trace fresh_world @ map (\<lambda>s. Run (Schema s)) (take 1 (statements ?t)))
         (Run (Schema (statements ?t ! 1)))
     \<and> (\<forall>i<1. \<not> raises ?e1 (trace fresh_world @ map (\<lambda>s. Run (Schema s)) (take i (statements ?t)))
         (Run (Schema (statements ?t ! i))))"
    unfolding st r1 by simp
  have h2: "\<forall>i<length (statements ?t).
       \<not> raises ?e2 (trace fresh_world @ map (\<lambda>s. Run (Schema s)) (take i (statements ?t)))
         (Run (Schema (statements ?t ! i)))"
    using r2 by blast
  have fold_id: "fold (\<lambda>s g. g) ss g = g" for ss :: "string list" and g :: graph
    by (induction ss) simp_all
  have a: "run_cypher_file ?e1 fresh_world =
      (Inl Neo4jError, fresh_world\<lparr>trace := [Run (Schema ''A''), Run (Schema ''B'')]\<rparr>)"
    using run_cypher_file_sequential [OF f, of "\<lambda>h c. c = Run (Schema ''B'')" fresh_world 1,
        THEN conjunct2, THEN conjunct2, THEN conjunct2, THEN conjunct2, rule_format, OF h1]
    unfolding st s1 fold_id by (simp add: fresh_world_def)
  have b: "run_cypher_file ?e2 fresh_world =
      (Inr (), fresh_world\<lparr>trace := [Run (Schema ''A''), Run (Schema ''B''), Run (Schema ''C'')]\<rparr>)"
    using run_cypher_file_sequential [OF f, of "\<lambda>h c. False" fresh_world 0,
        THEN conjunct2, THEN conjunct2, THEN conjunct2, THEN conjunct1, THEN mp, OF h2]
    unfolding st s2 fold_id by (simp add: fresh_world_def)
  from f st a b show ?thesis by blast
qed

section \<open>Release of the connections\<close>

lemma statements_A: "statements ''A'' = [''A'']"
  by (simp add: statements_def strip_def isspace_def)

text \<open>
  Claim C8. The guarded part of \<open>etl\<close> always returns, with a value or with the exception
  that schema load, extraction or loading raised, and in the world it leaves the session,
  the relational connection and the graph driver are closed. So a run of \<open>etl\<close> that
  opened both connections ends with both released, however the load phase ended.
  (\<open>close\<close> itself is taken not to raise.)
\<close>

theorem etl_releases_connections:
  "(\<exists>r w'. etl_guarded env w = (r, w')
      \<and> \<not> pg_conn_open w' \<and> \<not> driver_open w' \<and> \<not> session_open w')
   \<and> (\<forall>r w'. etl env w = Some (r, w')
        \<and> \<not> raises env (trace w) Connect \<and> \<not> raises env (trace w @ [Connect]) Driver
      \<longrightarrow> \<not> pg_conn_open w' \<and> \<not> driver_open w' \<and> \<not> session_open w')"
proof -
  have g: "\<not> pg_conn_open w' \<and> \<not> driver_open w' \<and> \<not> session_open w'"
    if "etl_guarded env v = (r, w')" for v r w'
    using that
    by (auto simp: etl_guarded_def try_finally_def with_session_def split: prod.splits)
  have 1: "\<exists>r w'. etl_guarded env w = (r, w')
      \<and> \<not> pg_conn_open w' \<and> \<not> driver_open w' \<and> \<not> session_open w'"
    using g [of w] by (cases "etl_guarded env w") simp
  have 2: "\<not> pg_conn_open w' \<and> \<not> driver_open w' \<and> \<not> session_open w'"
    if a: "etl env w = Some (r, w')
        \<and> \<not> raises env (trace w) Connect \<and> \<not> raises env (trace w @ [Connect]) Driver"
    for r w'
  proof -
  let ?w2 = "w\<lparr>trace := trace w @ [Connect], pg_conn_open := True\<rparr>
              \<lparr>trace := trace w @ [Connect] @ [Driver], driver_open := True\<rparr>"
  have c: "and_then (connect_postgres env) (\<lambda>_. and_then (open_driver env) (\<lambda>_. etl_guarded env)) w
      = etl_guarded env ?w2"
    using a by (simp add: and_then_def connect_postgres_def open_driver_def)
  have "etl_guarded env ?w2 = (r, w')"
    using a c by (auto simp: etl_def split: option.splits)
  then show ?thesis by (rule g)
  qed
  from 1 2 show ?thesis by blast
qed

lemma etl_guarded_sample:
  "etl_guarded (sample_env ''A'' no_tables (\<lambda>h c. c = ReadSql ''orders'')) (fresh_world\<lparr>trace := tr\<rparr>)
  = (Inl DatabaseError,
     fresh_world\<lparr>trace := tr @ [Run (Schema ''A''), ReadSql ''customers'', ReadSql ''categories'',
                     ReadSql ''products'', ReadSql ''orders''],
                  pg_conn_open := False, driver_open := False\<rparr>)"
  by (simp add: etl_guarded_def try_finally_def with_session_def and_then_def run_cypher_file_def
       statements_A extract_tables_def read_sql_def session_run_def sample_env_def fresh_world_def)

lemma etl_sample:
  "etl (sample_env ''A'' no_tables (\<lambda>h c. c = ReadSql ''orders'')) fresh_world
  = Some (Inl DatabaseError,
     fresh_world\<lparr>trace := [Connect, Driver, Run (Schema ''A''), ReadSql ''customers'',
                     ReadSql ''categories'', ReadSql ''products'', ReadSql ''orders''],
                  pg_conn_open := False, driver_open := False\<rparr>)"
proof -
  let ?e = "sample_env ''A'' no_tables (\<lambda>h c. c = ReadSql ''orders'')"
  have p: "wait_for_postgres (pg_check ?e) = Some \<lparr>attempts = 1, slept = 0\<rparr>"
    using wait_for_postgres_loop_success [of "\<lambda>k. True" gate_start 0]
    by (simp add: wait_for_postgres_def sample_env_def gate_start_def)
  have n: "wait_for_neo4j (neo4j_check ?e) = Some \<lparr>attempts = 1, slept = 0\<rparr>"
    using wait_for_neo4j_loop_success [of "\<lambda>k. True" gate_start 0]
    by (simp add: wait_for_neo4j_def sample_env_def gate_start_def)
  have c: "and_then (connect_postgres ?e) (\<lambda>_. and_then (open_driver ?e) (\<lambda>_. etl_guarded ?e))
             fresh_world
      = etl_guarded ?e (fresh_world\<lparr>trace := [Connect, Driver]\<rparr>)"
    by (simp add: and_then_def connect_postgres_def open_driver_def sample_env_def fresh_world_def)
  show ?thesis
    unfolding etl_def p n c etl_guarded_sample by simp
qed

theorem etl_releases_connections_witness:
  "etl (sample_env ''A'' no_tables (\<lambda>h c. c = ReadSql ''orders'')) fresh_world
     = Some (Inl DatabaseError,
         fresh_world\<lparr>trace := [Connect, Driver, Run (Schema ''A''), ReadSql ''customers'',
                     ReadSql ''categories'', ReadSql ''products'', ReadSql ''orders''],
                  pg_conn_open := False, driver_open := False\<rparr>)
   \<and> \<not> raises (sample_env ''A'' no_tables (\<lambda>h c. c = ReadSql ''orders'')) (trace fresh_world) Connect
   \<and> \<not> raises (sample_env ''A'' no_tables (\<lambda>h c. c = ReadSql ''orders''))
         (trace fresh_world @ [Connect]) Driver
   \<and> \<not> pg_conn_open (fresh_world\<lparr>trace := [Connect, Driver, Run (Schema ''A''), ReadSql ''customers'',
                     ReadSql ''categories'', ReadSql ''products'', ReadSql ''orders''],
                  pg_conn_open := False, driver_open := False\<rparr>)
   \<and> \<not> driver_open (fresh_world\<lparr>trace := [Connect, Driver, Run (Schema ''A''), ReadSql ''customers'',
                     ReadSql ''categories'', ReadSql ''products'', ReadSql ''orders''],
                  pg_conn_open := False, driver_open := False\<rparr>)"
proof -
  let ?e = "sample_env ''A'' no_tables (\<lambda>h c. c = ReadSql ''orders'')"
  have r: "\<not> raises ?e (trace fresh_world) Connect" "\<not> raises ?e (trace fresh_world @ [Connect]) Driver"
    by (simp_all add: sample_env_def)
  from etl_releases_connections [of ?e fresh_world, THEN conjunct2, rule_format, OF conjI, OF etl_sample conjI, OF r]
  show ?thesis using etl_sample r by simp
qed

section \<open>The order of the load phase\<close>

lemma emits_weaken: "emits a b m \<Longrightarrow> a' \<le> a \<Longrightarrow> b \<le> b' \<Longrightarrow> emits a' b' m"
  unfolding emits_def by (meson order_trans)

lemma emits_succeed: "emits n n (succeed x)"
  by (simp add: emits_def succeed_def)

lemma emits_raise: "emits n n (raise e)"
  by (simp add: emits_def raise_def)

lemma emits_session_run: "load_step (Run q) = n \<Longrightarrow> emits n n (session_run env q)"
  by (auto simp: emits_def session_run_def split: if_splits)

lemma emits_read_sql: "emits 2 2 (read_sql env table rows)"
  by (auto simp: emits_def read_sql_def split: if_splits)

lemma emits_and_then:
  assumes m: "emits a b m" and f: "\<And>x. emits p q (f x)" and le: "a \<le> b" "b \<le> p" "p \<le> q"
  shows "emits a q (and_then m f)"
  unfolding emits_def
proof (intro allI impI)
  fix w r w'
  assume run: "and_then m f w = (r, w')"
  obtain r1 w1 where m1: "m w = (r1, w1)" by (cases "m w")
  with m obtain t1 where t1: "trace w1 = trace w @ t1" "sorted (map load_step t1)"
      "\<forall>c \<in> set t1. a \<le> load_step c \<and> load_step c \<le> b"
    unfolding emits_def by blast
  show "\<exists>tr. trace w' = trace w @ tr \<and> sorted (map load_step tr)
              \<and> (\<forall>c \<in> set tr. a \<le> load_step c \<and> load_step c \<le> q)"
  proof (cases r1)
    case (Inl e)
    with run m1 have "w' = w1" by (simp add: and_then_def)
    with t1 le show ?thesis by (intro exI [of _ t1]) auto
  next
    case (Inr x)
    with run m1 have "f x w1 = (r, w')" by (simp add: and_then_def)
    with f [of x] obtain t2 where t2: "trace w' = trace w1 @ t2" "sorted (map load_step t2)"
        "\<forall>c \<in> set t2. p \<le> load_step c \<and> load_step c \<le> q"
      unfolding emits_def by blast
    have "sorted (map load_step (t1 @ t2))"
      using t1 t2 le by (fastforce simp: sorted_append)
    moreover have "\<forall>c \<in> set (t1 @ t2). a \<le> load_step c \<and> load_step c \<le> q"
      using t1 t2 le by fastforce
    ultimately show ?thesis using t1(1) t2(1) by (intro exI [of _ "t1 @ t2"]) simp
  qed
qed

lemma emits_for_each:
  assumes "\<And>x. emits n n (body x)"
  shows "emits n n (for_each body xs)"
proof (induction xs)
  case Nil
  show ?case by (simp add: emits_def)
next
  case (Cons x xs)
  have "for_each body (x # xs) = and_then (body x) (\<lambda>u. for_each body xs)"
    by (rule ext) (simp add: and_then_def split: prod.splits sum.splits)
  then show ?case
    using emits_and_then [OF assms [of x], of n n "\<lambda>u. for_each body xs"] Cons by simp
qed

lemma emits_load_table:
  assumes "\<And>d. load_step (Run (query d)) = n"
  shows "emits n n (load_table env query df)"
  unfolding load_table_def
  by (cases "chunk df 100") (simp_all add: emits_raise emits_for_each emits_session_run assms)



lemma emits_then:
  assumes "emits a a m" "a \<le> p" "p \<le> q" "\<And>x. emits p q (f x)"
  shows "emits a q (and_then m f)"
  using emits_and_then [OF assms(1) assms(4) order_refl assms(2) assms(3)] .

lemma emits_load_phase: "emits 3 8 (load_phase env t)"
  unfolding load_phase_def
  apply (rule emits_then [where p = 4], rule emits_load_table, simp, simp, simp)
  apply (rule emits_then [where p = 5], rule emits_load_table, simp, simp, simp)
  apply (rule emits_then [where p = 6], rule emits_load_table, simp, simp, simp)
  apply (rule emits_then [where p = 7], rule emits_load_table, simp, simp, simp)
  apply (rule emits_then [where p = 8], rule emits_load_table, simp, simp, simp)
  apply (rule emits_then [where p = 8], rule emits_load_table, simp, simp, simp)
  apply (rule emits_then [where p = 8], rule emits_load_table, simp, simp, simp)
  apply (rule emits_load_table, simp)
  done

lemma emits_run_cypher_file: "emits 1 1 (run_cypher_file env)"
  unfolding run_cypher_file_def
  by (cases "schema_file env") (simp_all add: emits_raise emits_for_each emits_session_run)

lemma emits_extract_tables: "emits 2 2 (extract_tables env)"
  unfolding extract_tables_def
  apply (rule emits_then [where p = 2], rule emits_read_sql, simp, simp)
  apply (rule emits_then [where p = 2], rule emits_read_sql, simp, simp)
  apply (rule emits_then [where p = 2], rule emits_read_sql, simp, simp)
  apply (rule emits_then [where p = 2], rule emits_read_sql, simp, simp)
  apply (rule emits_then [where p = 2], rule emits_read_sql, simp, simp)
  apply (rule emits_then [where p = 2], rule emits_read_sql, simp, simp)
  apply (rule emits_succeed)
  done

lemma emits_etl_guarded: "emits 1 8 (etl_guarded env)"
proof -
  have b: "emits 1 8 (and_then (run_cypher_file env) (\<lambda>_.
           and_then (extract_tables env) (\<lambda>t. load_phase env t)))"
    apply (rule emits_then [where p = 2], rule emits_run_cypher_file, simp, simp)
    apply (rule emits_then [where p = 3], rule emits_extract_tables, simp, simp)
    apply (rule emits_load_phase)
    done
  show ?thesis
    unfolding emits_def
  proof (intro allI impI)
    fix w r w'
    assume "etl_guarded env w = (r, w')"
    then obtain w1 where "and_then (run_cypher_file env) (\<lambda>_.
           and_then (extract_tables env) (\<lambda>t. load_phase env t)) (w\<lparr>session_open := True\<rparr>) = (r, w1)"
      and "trace w' = trace w1"
      by (auto simp: etl_guarded_def try_finally_def with_session_def split: prod.splits)
    with b show "\<exists>tr. trace w' = trace w @ tr \<and> sorted (map load_step tr)
              \<and> (\<forall>c \<in> set tr. 1 \<le> load_step c \<and> load_step c \<le> 8)"
      unfolding emits_def by fastforce
  qed
qed


lemma chunk_concat:
  assumes "0 < S" and "chunk df S = Inr bs"
  shows "concat bs = df"
proof -
  obtain s where s: "S = int s" "0 < s"
    using assms(1) by (cases S) simp_all
  define n where "n = (length df + s - 1) div s"
  have m: "int (length df) + int s - 1 = int (length df + s - 1)"
    using s(2) by (simp add: of_nat_diff)
  have cn: "(int (length df) + S - 1) div S = int n"
    unfolding s(1) m n_def by (simp add: zdiv_int)
  have bs: "bs = map (\<lambda>k. take s (drop (k * s) df)) [0..<n]"
    using chunk_batches [OF assms(1), of df] assms(2) unfolding cn by (simp add: s(1))
  have "length df + s - 1 < n * s + s"
    unfolding n_def using s(2) by (metis add.commute dividend_less_div_times mult.commute)
  then have "length df \<le> n * s"
    using s(2) by linarith
  then show ?thesis
    by (simp add: bs concat_batches)
qed

lemma chunk_100: "chunk df 100 = Inr (batches df)"
  using chunk_batches [of 100 df] by (simp add: batches_def)

lemma concat_batches_100: "concat (batches df) = df"
  by (rule chunk_concat [of 100]) (simp_all add: chunk_100)

lemma fold_batches: "fold (\<lambda>d. fold f d) (batches df) g = fold f df g"
proof -
  have "fold (\<lambda>d. fold f d) bs g = fold f (concat bs) g" for bs
    by (induction bs arbitrary: g) simp_all
  then show ?thesis by (simp add: concat_batches_100)
qed

lemma load_table_ok:
  assumes "\<And>h c. \<not> raises env h c"
  shows "load_table env query df w =
    (Inr (), w\<lparr>store := fold (exec_stmt (schema_effect env)) (map query (batches df)) (store w),
               trace := trace w @ map (\<lambda>d. Run (query d)) (batches df)\<rparr>)"
proof -
  have "for_each (\<lambda>d. session_run env (query d)) (batches df) w =
      for_each (session_run env) (map query (batches df)) w"
    by (rule for_each_map)
  also have "\<dots> = (Inr (), w\<lparr>store := fold (exec_stmt (schema_effect env)) (map query (batches df)) (store w),
               trace := trace w @ map Run (map query (batches df))\<rparr>)"
    by (rule for_each_run_ok) (simp add: assms)
  finally show ?thesis
    by (simp add: load_table_def chunk_100 o_def)
qed

lemma load_phase_ok:
  assumes "\<And>h c. \<not> raises env h c"
  shows "load_phase env t w =
    (Inr (), w\<lparr>store := load_store t (store w), trace := trace w @ load_calls t\<rparr>)"
proof -
  have f: "fold (exec_stmt se) (map Categories (batches df1)) g = fold category_stmt df1 g"
    "fold (exec_stmt se) (map Products (batches df2)) g = fold product_stmt df2 g"
    "fold (exec_stmt se) (map Customers (batches df3)) g = fold customer_stmt df3 g"
    "fold (exec_stmt se) (map Orders (batches df4)) g = fold order_stmt df4 g"
    "fold (exec_stmt se) (map OrderItems (batches df5)) g = fold order_item_stmt df5 g"
    "fold (exec_stmt se) (map Views (batches df6)) g = fold (event_stmt VIEW) df6 g"
    "fold (exec_stmt se) (map Clicks (batches df6)) g = fold (event_stmt CLICK) df6 g"
    "fold (exec_stmt se) (map AddToCarts (batches df6)) g = fold (event_stmt ADD_TO_CART) df6 g"
    for se df1 df2 df3 df4 df5 df6 g
  proof -
    have e: "exec_stmt se (Categories x1) = fold category_stmt x1"
      "exec_stmt se (Products x2) = fold product_stmt x2"
      "exec_stmt se (Customers x3) = fold customer_stmt x3"
      "exec_stmt se (Orders x4) = fold order_stmt x4"
      "exec_stmt se (OrderItems x5) = fold order_item_stmt x5"
      "exec_stmt se (Views x6) = fold (event_stmt VIEW) x6"
      "exec_stmt se (Clicks x6) = fold (event_stmt CLICK) x6"
      "exec_stmt se (AddToCarts x6) = fold (event_stmt ADD_TO_CART) x6"
      for x1 x2 x3 x4 x5 x6
      by (rule ext, simp)+
    show "fold (exec_stmt se) (map Categories (batches df1)) g = fold category_stmt df1 g"
      "fold (exec_stmt se) (map Products (batches df2)) g = fold product_stmt df2 g"
      "fold (exec_stmt se) (map Customers (batches df3)) g = fold customer_stmt df3 g"
      "fold (exec_stmt se) (map Orders (batches df4)) g = fold order_stmt df4 g"
      "fold (exec_stmt se) (map OrderItems (batches df5)) g = fold order_item_stmt df5 g"
      "fold (exec_stmt se) (map Views (batches df6)) g = fold (event_stmt VIEW) df6 g"
      "fold (exec_stmt se) (map Clicks (batches df6)) g = fold (event_stmt CLICK) df6 g"
      "fold (exec_stmt se) (map AddToCarts (batches df6)) g = fold (event_stmt ADD_TO_CART) df6 g"
      by (simp_all only: fold_map o_def e fold_batches)
  qed
  show ?thesis
    unfolding load_phase_def and_then_def load_table_ok [OF assms] f
    by (simp add: load_store_def load_events_def load_calls_def)
qed


lemma batches_Nil: "batches ([] :: 'a list) = []"
  using chunk_batches [of 100 "[] :: 'a list"] by (simp add: batches_def)

lemma batches_single: "batches [x] = [[x]]"
  using chunk_batches [of 100 "[x]"] by (simp add: batches_def)

lemma sorted_in_load_order:
  assumes "sorted (map load_step tr)"
  shows "in_load_order tr"
proof -
  have "i < j" if "i < length tr" "j < length tr" "load_step (tr ! i) < load_step (tr ! j)" for i j
  proof (rule ccontr)
    assume "\<not> i < j"
    then have "j \<le> i" by simp
    then have "map load_step tr ! j \<le> map load_step tr ! i"
      using assms that(1) by (intro sorted_nth_mono) simp_all
    then show False using that by simp
  qed
  then show ?thesis
    unfolding in_load_order_def by auto
qed

text \<open>
  Claim C7. The calls a run adds to the trace, whether the load phase is taken alone or
  inside the guarded part of \<open>etl\<close>, and whether it runs to its end or stops at an
  exception, are in load order: category upserts before product upserts, customer upserts
  before order upserts, and product, customer and order upserts before order-item and
  event upserts. The run is one sequence of calls: nothing runs beside it.
\<close>

theorem load_order:
  "(load_phase env t w = (r, w') \<longrightarrow> (\<exists>tr. trace w' = trace w @ tr \<and> in_load_order tr))
   \<and> (etl_guarded env w = (r, w') \<longrightarrow> (\<exists>tr. trace w' = trace w @ tr \<and> in_load_order tr))"
proof -
  have "\<exists>tr. trace w' = trace w @ tr \<and> in_load_order tr"
    if "emits a b m" "m w = (r, w')" for a b and m :: "unit io"
    using that sorted_in_load_order unfolding emits_def by blast
  then show ?thesis
    using emits_load_phase [of env t] emits_etl_guarded [of env] by blast
qed

lemma load_calls_shop:
  "load_calls shop_tables =
     [Run (Categories (categories shop_tables)), Run (Products (products shop_tables)),
      Run (Customers (customers shop_tables)), Run (Orders (orders shop_tables)),
      Run (OrderItems (order_items shop_tables)), Run (Views (events shop_tables))]"
  by (simp add: load_calls_def shop_tables_def events_of_type_def batches_single batches_Nil)

theorem load_order_witness:
  "(\<exists>w'. load_phase (sample_env ''A'' shop_tables (\<lambda>h c. False)) shop_tables fresh_world = (Inr (), w')
      \<and> trace w' =
         [Run (Categories (categories shop_tables)), Run (Products (products shop_tables)),
          Run (Customers (customers shop_tables)), Run (Orders (orders shop_tables)),
          Run (OrderItems (order_items shop_tables)), Run (Views (events shop_tables))])
   \<and> in_load_order
         [Run (Categories (categories shop_tables)), Run (Products (products shop_tables)),
          Run (Customers (customers shop_tables)), Run (Orders (orders shop_tables)),
          Run (OrderItems (order_items shop_tables)), Run (Views (events shop_tables))]
   \<and> (\<exists>r w' tr. etl_guarded (sample_env ''A'' shop_tables (\<lambda>h c. False)) fresh_world = (r, w')
         \<and> trace w' = trace fresh_world @ tr \<and> in_load_order tr)"
proof -
  let ?e = "sample_env ''A'' shop_tables (\<lambda>h c. False)"
  let ?w = "fresh_world\<lparr>store := load_store shop_tables (store fresh_world),
               trace := trace fresh_world @ load_calls shop_tables\<rparr>"
  have run: "load_phase ?e shop_tables fresh_world = (Inr (), ?w)"
    by (rule load_phase_ok) (simp add: sample_env_def)
  have tr: "trace ?w = load_calls shop_tables"
    by (simp add: fresh_world_def)
  from load_order [of ?e shop_tables fresh_world "Inr ()" ?w, THEN conjunct1, rule_format, OF run]
  have "in_load_order (load_calls shop_tables)"
    by (simp add: fresh_world_def)
  moreover obtain r' w'' where g: "etl_guarded ?e fresh_world = (r', w'')"
    by (cases "etl_guarded ?e fresh_world")
  from load_order [of ?e shop_tables fresh_world r' w'', THEN conjunct2, rule_format, OF g]
  have "\<exists>r w' tr. etl_guarded ?e fresh_world = (r, w')
         \<and> trace w' = trace fresh_world @ tr \<and> in_load_order tr"
    using g by blast
  ultimately show ?thesis
    using run tr unfolding load_calls_shop by blast
qed

section \<open>Missing endpoints and unknown event types\<close>

lemma nodes_merge_node:
  "nodes (merge_node l i g) k =
     (if k = (l, i) \<and> nodes g k = None then Some [''id'' \<mapsto> IntV i] else nodes g k)"
  by (auto simp: merge_node_def split: option.splits)

lemma rels_merge_node: "rels (merge_node l i g) = rels g"
  by (simp add: merge_node_def split: option.splits)

lemma nodes_set_node:
  "nodes (set_node k p v g) k' =
     (if k' = k then map_option (\<lambda>ps. ps(p := v)) (nodes g k) else nodes g k')"
  by (auto simp: set_node_def split: option.splits)

lemma rels_set_node: "rels (set_node k p v g) = rels g"
  by (simp add: set_node_def split: option.splits)

lemma nodes_merge_rel: "nodes (merge_rel a t b g) = nodes g"
  by (simp add: merge_rel_def split: option.splits)

lemma rels_merge_rel:
  "rels (merge_rel a t b g) k =
     (if k = (a, t, b) \<and> rels g k = None then Some Map.empty else rels g k)"
  by (auto simp: merge_rel_def split: option.splits)

lemma nodes_set_rel: "nodes (set_rel k p v g) = nodes g"
  by (simp add: set_rel_def split: option.splits)

lemma rels_set_rel:
  "rels (set_rel k p v g) k' =
     (if k' = k then map_option (\<lambda>ps. ps(p := v)) (rels g k) else rels g k')"
  by (auto simp: set_rel_def split: option.splits)

lemmas clause_simps =
  nodes_merge_node rels_merge_node nodes_set_node rels_set_node
  nodes_merge_rel rels_merge_rel nodes_set_rel rels_set_rel

lemma match_node_missing: "missing l i g \<Longrightarrow> match_node l i g = []"
  by (cases i) (simp_all add: missing_def match_node_def)

lemma match_node_present:
  "nodes g (l, j) \<noteq> None \<Longrightarrow> match_node l (Some j) g = [(l, j)]"
  by (simp add: match_node_def)

lemma product_Nil2: "List.product xs [] = []"
  by (induction xs) simp_all

text \<open>
  Claim C4. A relationship upsert whose endpoint is missing changes no relationship and
  raises nothing. For a product whose category is missing and an order whose customer is
  missing, the node is still created and the relationships stay as they were; for an order
  item and for an event of any of the three kinds, with either endpoint missing, the store
  stays as it was. Sent through a session, a batch holding a product whose category is
  missing returns normally (when the driver does not raise), with the Product node in the
  store and the relationships unchanged.
\<close>

theorem missing_endpoint_no_op:
  "(missing Category (prod_category_id pr) g \<longrightarrow>
      rels (product_stmt pr g) = rels g \<and> nodes (product_stmt pr g) (Product, prod_id pr) \<noteq> None)
   \<and> (missing Customer (ord_customer_id od) g \<longrightarrow>
      rels (order_stmt od g) = rels g \<and> nodes (order_stmt od g) (Order, ord_id od) \<noteq> None)
   \<and> (missing Order (oi_order_id oi) g \<or> missing Product (oi_product_id oi) g \<longrightarrow>
      order_item_stmt oi g = g)
   \<and> (missing Customer (ev_customer_id ev) g \<or> missing Product (ev_product_id ev) g \<longrightarrow>
      event_stmt t ev g = g)
   \<and> (missing Category (prod_category_id pr) (store w) \<and> \<not> raises env (trace w) (Run (Products [pr])) \<longrightarrow>
      (\<exists>w'. session_run env (Products [pr]) w = (Inr (), w')
          \<and> nodes (store w') (Product, prod_id pr) \<noteq> None
          \<and> (\<forall>k. rels (store w') k = rels (store w) k)))"
proof -
  have p: "rels (product_stmt pr h) = rels h \<and> nodes (product_stmt pr h) (Product, prod_id pr) \<noteq> None"
    if "missing Category (prod_category_id pr) h" for h
  proof -
    let ?g2 = "set_node (Product, prod_id pr) ''price'' (prod_price pr)
                (set_node (Product, prod_id pr) ''name'' (prod_name pr)
                  (merge_node Product (prod_id pr) h))"
    have "missing Category (prod_category_id pr) ?g2"
      using that by (simp add: missing_def clause_simps split: option.splits)
    then have "product_stmt pr h = ?g2"
      by (simp add: product_stmt_def Let_def match_node_missing)
    then show ?thesis
      by (simp add: clause_simps)
  qed
  have q: "rels (order_stmt od g) = rels g \<and> nodes (order_stmt od g) (Order, ord_id od) \<noteq> None"
    if "missing Customer (ord_customer_id od) g"
  proof -
    let ?g1 = "set_node (Order, ord_id od) ''ts'' (ord_ts od) (merge_node Order (ord_id od) g)"
    have "missing Customer (ord_customer_id od) ?g1"
      using that by (simp add: missing_def clause_simps split: option.splits)
    then have "order_stmt od g = ?g1"
      by (simp add: order_stmt_def Let_def match_node_missing)
    then show ?thesis
      by (simp add: clause_simps)
  qed
  have i: "order_item_stmt oi g = g"
    if "missing Order (oi_order_id oi) g \<or> missing Product (oi_product_id oi) g"
    using that by (auto simp: order_item_stmt_def match_node_missing product_Nil2)
  have e: "event_stmt t ev g = g"
    if "missing Customer (ev_customer_id ev) g \<or> missing Product (ev_product_id ev) g"
    using that by (auto simp: event_stmt_def match_node_missing product_Nil2)
  have s: "\<exists>w'. session_run env (Products [pr]) w = (Inr (), w')
          \<and> nodes (store w') (Product, prod_id pr) \<noteq> None
          \<and> (\<forall>k. rels (store w') k = rels (store w) k)"
    if "missing Category (prod_category_id pr) (store w) \<and> \<not> raises env (trace w) (Run (Products [pr]))"
    using that p [of "store w"] by (simp add: session_run_def)
  from p [of g] q i e s show ?thesis by blast
qed


theorem missing_endpoint_no_op_witness:
  "missing Category (prod_category_id (hd (products shop_tables))) empty_graph
   \<and> rels (product_stmt (hd (products shop_tables)) empty_graph) = rels empty_graph
   \<and> nodes (product_stmt (hd (products shop_tables)) empty_graph) (Product, 100) \<noteq> None
   \<and> missing Customer (ord_customer_id (hd (orders shop_tables))) empty_graph
   \<and> rels (order_stmt (hd (orders shop_tables)) empty_graph) = rels empty_graph
   \<and> nodes (order_stmt (hd (orders shop_tables)) empty_graph) (Order, 1000) \<noteq> None
   \<and> missing Order (oi_order_id (hd (order_items shop_tables))) empty_graph
   \<and> order_item_stmt (hd (order_items shop_tables)) empty_graph = empty_graph
   \<and> missing Customer (ev_customer_id (hd (events shop_tables))) empty_graph
   \<and> event_stmt VIEW (hd (events shop_tables)) empty_graph = empty_graph
   \<and> \<not> raises (sample_env ''A'' shop_tables (\<lambda>h c. False)) (trace fresh_world)
         (Run (Products [hd (products shop_tables)]))
   \<and> (\<exists>w'. session_run (sample_env ''A'' shop_tables (\<lambda>h c. False))
              (Products [hd (products shop_tables)]) fresh_world = (Inr (), w')
          \<and> nodes (store w') (Product, 100) \<noteq> None
          \<and> (\<forall>k. rels (store w') k = rels (store fresh_world) k))"
proof -
  let ?e = "sample_env ''A'' shop_tables (\<lambda>h c. False)"
  have m: "missing Category (prod_category_id (hd (products shop_tables))) empty_graph"
    "missing Customer (ord_customer_id (hd (orders shop_tables))) empty_graph"
    "missing Order (oi_order_id (hd (order_items shop_tables))) empty_graph"
    "missing Customer (ev_customer_id (hd (events shop_tables))) empty_graph"
    by (simp_all add: missing_def shop_tables_def empty_graph_def)
  have s: "store fresh_world = empty_graph" "\<not> raises ?e (trace fresh_world)
         (Run (Products [hd (products shop_tables)]))"
    by (simp_all add: fresh_world_def sample_env_def)
  have i: "prod_id (hd (products shop_tables)) = 100" "ord_id (hd (orders shop_tables)) = 1000"
    by (simp_all add: shop_tables_def)
  show ?thesis
    using missing_endpoint_no_op [of "hd (products shop_tables)" empty_graph
        "hd (orders shop_tables)" "hd (order_items shop_tables)" "hd (events shop_tables)" VIEW
        fresh_world ?e] m s
    unfolding i s(1) by simp
qed

text \<open>
  Claim C9. An event row whose type is none of \<open>view\<close>, \<open>click\<close> and \<open>add_to_cart\<close>
  (a null type and a type in another case, such as \<open>View\<close>, included) is selected by none
  of the three filters, so the load phase does exactly what it does on the table without
  that row: the same calls with the same rows, the same store, the same result. The row
  creates no relationship and raises nothing.
\<close>

theorem other_event_type_dropped:
  assumes "ev_event_type e \<notin> {Some ''view'', Some ''click'', Some ''add_to_cart''}"
  shows "events_of_type ''view'' (xs @ e # ys) = events_of_type ''view'' (xs @ ys)
    \<and> events_of_type ''click'' (xs @ e # ys) = events_of_type ''click'' (xs @ ys)
    \<and> events_of_type ''add_to_cart'' (xs @ e # ys) = events_of_type ''add_to_cart'' (xs @ ys)
    \<and> load_phase env (t\<lparr>events := xs @ e # ys\<rparr>) w = load_phase env (t\<lparr>events := xs @ ys\<rparr>) w"
proof -
  have f: "events_of_type ''view'' (xs @ e # ys) = events_of_type ''view'' (xs @ ys)"
    "events_of_type ''click'' (xs @ e # ys) = events_of_type ''click'' (xs @ ys)"
    "events_of_type ''add_to_cart'' (xs @ e # ys) = events_of_type ''add_to_cart'' (xs @ ys)"
    using assms by (auto simp: events_of_type_def)
  then show ?thesis
    by (simp add: load_phase_def)
qed

theorem other_event_type_dropped_witness:
  "Some ''View'' \<notin> {Some ''view'', Some ''click'', Some ''add_to_cart''}
   \<and> events_of_type ''view''
        (events shop_tables @ [\<lparr>ev_customer_id = Some 1, ev_product_id = Some 100,
                                ev_event_type = Some ''View'', ev_ts = None\<rparr>])
       = events_of_type ''view'' (events shop_tables)
   \<and> load_phase (sample_env ''A'' shop_tables (\<lambda>h c. False))
        (shop_tables\<lparr>events := events shop_tables
           @ [\<lparr>ev_customer_id = Some 1, ev_product_id = Some 100,
                ev_event_type = Some ''View'', ev_ts = None\<rparr>]\<rparr>) fresh_world
       = load_phase (sample_env ''A'' shop_tables (\<lambda>h c. False)) shop_tables fresh_world"
proof -
  let ?e = "\<lparr>ev_customer_id = Some 1, ev_product_id = Some 100,
                ev_event_type = Some ''View'', ev_ts = None\<rparr>"
  have h: "ev_event_type ?e \<notin> {Some ''view'', Some ''click'', Some ''add_to_cart''}"
    by simp
  have t: "shop_tables\<lparr>events := events shop_tables @ []\<rparr> = shop_tables"
    by simp
  show ?thesis
    using other_event_type_dropped [OF h, of "events shop_tables" "[]"
        "sample_env ''A'' shop_tables (\<lambda>h c. False)" shop_tables fresh_world]
    by (simp add: t)
qed

section \<open>Idempotence of the load phase\<close>

lemma touches_Nil: "touches hit init f [] v = v"
  by (simp add: touches_def)

lemma touches_Cons:
  "touches hit init f (r # rows) v =
     touches hit init f rows (if hit r then touch (init r) (f r) v else v)"
  by (simp add: touches_def)

lemma touches_no_hit: "\<forall>r \<in> set rows. \<not> hit r \<Longrightarrow> touches hit init f rows v = v"
  by (induction rows arbitrary: v) (simp_all add: touches_Nil touches_Cons)

lemma touches_Some:
  assumes absorb: "\<And>r r' ps. f r (f r' ps) = f r ps"
  shows "\<exists>r \<in> set rows. hit r \<Longrightarrow>
    touches hit init f rows v =
      Some (f (last (filter hit rows))
             (case v of None \<Rightarrow> init (hd (filter hit rows)) | Some ps \<Rightarrow> ps))"
proof (induction rows arbitrary: v)
  case Nil
  then show ?case by simp
next
  case (Cons r rows)
  show ?case
  proof (cases "\<exists>x \<in> set rows. hit x")
    case False
    then have n: "filter hit rows = []" by (simp add: filter_empty_conv)
    from False Cons.prems have h: "hit r" by auto
    from False have "touches hit init f rows u = u" for u
      by (intro touches_no_hit) simp
    with h n show ?thesis by (simp add: touches_Cons touch_def split: option.split)
  next
    case True
    then have ne: "filter hit rows \<noteq> []" by (simp add: filter_empty_conv)
    show ?thesis
    proof (cases "hit r")
      case False
      with Cons.IH [OF True] show ?thesis by (simp add: touches_Cons split: option.split)
    next
      case h: True
      from Cons.IH [OF True, of "touch (init r) (f r) v"] h ne show ?thesis
        by (simp add: touches_Cons touch_def absorb split: option.split)
    qed
  qed
qed

lemma touches_idem:
  assumes absorb: "\<And>r r' ps. f r (f r' ps) = f r ps"
  shows "touches hit init f rows (touches hit init f rows v) = touches hit init f rows v"
proof (cases "\<exists>r \<in> set rows. hit r")
  case False
  then show ?thesis by (simp add: touches_no_hit)
next
  case True
  show ?thesis
    unfolding touches_Some [of f rows hit init, OF absorb True]
    by (simp add: absorb split: option.split)
qed

lemma touches_dom:
  "touches hit init f rows v \<noteq> None \<longleftrightarrow> v \<noteq> None \<or> (\<exists>r \<in> set rows. hit r)"
  by (induction rows arbitrary: v) (auto simp: touches_Nil touches_Cons touch_def)

lemma fold_pointwise:
  assumes step: "\<And>r h. P h \<Longrightarrow>
      sel (step r h) k = (if hit r then touch (init r) (f r) (sel h k) else sel h k)"
    and inv: "\<And>r h. P h \<Longrightarrow> P (step r h)"
  shows "P g \<Longrightarrow> sel (fold step rows g) k = touches hit init f rows (sel g k)"
  by (induction rows arbitrary: g) (simp_all add: touches_Nil touches_Cons step inv)

lemma fold_unchanged:
  assumes "\<And>r h. sel (step r h) = sel h"
  shows "sel (fold step rows g) = sel g"
  by (induction rows arbitrary: g) (simp_all add: assms)

subsection \<open>Categories\<close>

lemma nodes_category_stmt:
  "nodes (category_stmt r g) k =
     (if k = (Category, cat_id r)
      then touch [''id'' \<mapsto> IntV (cat_id r)] (\<lambda>ps. ps(''name'' := cat_name r)) (nodes g k)
      else nodes g k)"
  by (simp add: category_stmt_def clause_simps touch_def split: option.splits)

lemma rels_category_stmt: "rels (category_stmt r g) = rels g"
  by (simp add: category_stmt_def clause_simps)

subsection \<open>Products\<close>

lemma nodes_product_stmt:
  "nodes (product_stmt r g) k =
     (if k = (Product, prod_id r)
      then touch [''id'' \<mapsto> IntV (prod_id r)]
             (\<lambda>ps. ps(''name'' := prod_name r, ''price'' := prod_price r)) (nodes g k)
      else nodes g k)"
  by (cases "prod_category_id r")
     (simp_all add: product_stmt_def Let_def match_node_def clause_simps touch_def
        split: option.splits)

lemma rels_product_stmt:
  "rels (product_stmt r g) k =
     (if in_category_key (ids Category g) r k then touch Map.empty (\<lambda>ps. ps) (rels g k)
      else rels g k)"
  by (cases "prod_category_id r")
     (auto simp: product_stmt_def Let_def match_node_def clause_simps touch_def
        in_category_key_def ids_def split: option.splits)

subsection \<open>Customers\<close>

lemma nodes_customer_stmt:
  "nodes (customer_stmt r g) k =
     (if k = (Customer, cust_id r)
      then touch [''id'' \<mapsto> IntV (cust_id r)]
             (\<lambda>ps. ps(''name'' := cust_name r, ''join_date'' := cust_join_date r)) (nodes g k)
      else nodes g k)"
  by (simp add: customer_stmt_def Let_def clause_simps touch_def split: option.splits)

lemma rels_customer_stmt: "rels (customer_stmt r g) = rels g"
  by (simp add: customer_stmt_def Let_def clause_simps)

subsection \<open>Orders\<close>

lemma nodes_order_stmt:
  "nodes (order_stmt r g) k =
     (if k = (Order, ord_id r)
      then touch [''id'' \<mapsto> IntV (ord_id r)] (\<lambda>ps. ps(''ts'' := ord_ts r)) (nodes g k)
      else nodes g k)"
  by (cases "ord_customer_id r")
     (simp_all add: order_stmt_def Let_def match_node_def clause_simps touch_def
        split: option.splits)

lemma rels_order_stmt:
  "rels (order_stmt r g) k =
     (if placed_key (ids Customer g) r k then touch Map.empty (\<lambda>ps. ps) (rels g k)
      else rels g k)"
  by (cases "ord_customer_id r")
     (auto simp: order_stmt_def Let_def match_node_def clause_simps touch_def
        placed_key_def ids_def split: option.splits)

subsection \<open>Order items\<close>

lemma nodes_order_item_stmt: "nodes (order_item_stmt r g) = nodes g"
  by (cases "oi_order_id r"; cases "oi_product_id r")
     (simp_all add: order_item_stmt_def match_node_def clause_simps)

lemma rels_order_item_stmt:
  "rels (order_item_stmt r g) k =
     (if contains_key (ids Order g) (ids Product g) r k
      then touch Map.empty (\<lambda>ps. ps(''quantity'' := oi_quantity r)) (rels g k)
      else rels g k)"
  by (cases "oi_order_id r"; cases "oi_product_id r")
     (auto simp: order_item_stmt_def match_node_def clause_simps touch_def
        contains_key_def ids_def split: option.splits)

subsection \<open>Events\<close>

lemma nodes_event_stmt: "nodes (event_stmt t r g) = nodes g"
  by (cases "ev_customer_id r"; cases "ev_product_id r")
     (simp_all add: event_stmt_def match_node_def clause_simps)

lemma rels_event_stmt:
  "rels (event_stmt t r g) k =
     (if event_hit (ids Customer g) (ids Product g) t r k
      then touch Map.empty (\<lambda>ps. ps(''ts'' := ev_ts r)) (rels g k)
      else rels g k)"
  by (cases "ev_customer_id r"; cases "ev_product_id r")
     (auto simp: event_stmt_def match_node_def clause_simps touch_def
        event_hit_def ids_def split: option.splits)

subsection \<open>Whole tables\<close>

lemma nodes_fold_category:
  "nodes (fold category_stmt rows g) k =
     touches (\<lambda>r. k = (Category, cat_id r)) (\<lambda>r. [''id'' \<mapsto> IntV (cat_id r)])
       (\<lambda>r ps. ps(''name'' := cat_name r)) rows (nodes g k)"
  by (rule fold_pointwise [where P = "\<lambda>h. True"]) (simp_all add: nodes_category_stmt)

lemma nodes_fold_product:
  "nodes (fold product_stmt rows g) k =
     touches (\<lambda>r. k = (Product, prod_id r)) (\<lambda>r. [''id'' \<mapsto> IntV (prod_id r)])
       (\<lambda>r ps. ps(''name'' := prod_name r, ''price'' := prod_price r)) rows (nodes g k)"
  by (rule fold_pointwise [where P = "\<lambda>h. True"]) (simp_all add: nodes_product_stmt)

lemma nodes_fold_customer:
  "nodes (fold customer_stmt rows g) k =
     touches (\<lambda>r. k = (Customer, cust_id r)) (\<lambda>r. [''id'' \<mapsto> IntV (cust_id r)])
       (\<lambda>r ps. ps(''name'' := cust_name r, ''join_date'' := cust_join_date r)) rows (nodes g k)"
  by (rule fold_pointwise [where P = "\<lambda>h. True"]) (simp_all add: nodes_customer_stmt)

lemma nodes_fold_order:
  "nodes (fold order_stmt rows g) k =
     touches (\<lambda>r. k = (Order, ord_id r)) (\<lambda>r. [''id'' \<mapsto> IntV (ord_id r)])
       (\<lambda>r ps. ps(''ts'' := ord_ts r)) rows (nodes g k)"
  by (rule fold_pointwise [where P = "\<lambda>h. True"]) (simp_all add: nodes_order_stmt)

lemma nodes_fold_order_item: "nodes (fold order_item_stmt rows g) = nodes g"
  by (rule fold_unchanged) (rule nodes_order_item_stmt)

lemma nodes_fold_event: "nodes (fold (event_stmt t) rows g) = nodes g"
  by (rule fold_unchanged) (rule nodes_event_stmt)

lemma rels_fold_category: "rels (fold category_stmt rows g) = rels g"
  by (rule fold_unchanged) (rule rels_category_stmt)

lemma rels_fold_customer: "rels (fold customer_stmt rows g) = rels g"
  by (rule fold_unchanged) (rule rels_customer_stmt)

lemma ids_fold_category:
  "ids l (fold category_stmt rows g) =
     (if l = Category then ids l g \<union> cat_id ` set rows else ids l g)"
  unfolding ids_def nodes_fold_category touches_dom by auto

lemma ids_fold_product:
  "ids l (fold product_stmt rows g) =
     (if l = Product then ids l g \<union> prod_id ` set rows else ids l g)"
  unfolding ids_def nodes_fold_product touches_dom by auto

lemma ids_fold_customer:
  "ids l (fold customer_stmt rows g) =
     (if l = Customer then ids l g \<union> cust_id ` set rows else ids l g)"
  unfolding ids_def nodes_fold_customer touches_dom by auto

lemma ids_fold_order:
  "ids l (fold order_stmt rows g) =
     (if l = Order then ids l g \<union> ord_id ` set rows else ids l g)"
  unfolding ids_def nodes_fold_order touches_dom by auto

lemma ids_fold_order_item: "ids l (fold order_item_stmt rows g) = ids l g"
  by (simp add: ids_def nodes_fold_order_item)

lemma ids_fold_event: "ids l (fold (event_stmt t) rows g) = ids l g"
  by (simp add: ids_def nodes_fold_event)

lemma rels_fold_product:
  "rels (fold product_stmt rows g) k =
     touches (\<lambda>r. in_category_key (ids Category g) r k) (\<lambda>r. Map.empty) (\<lambda>r ps. ps) rows
       (rels g k)"
proof (rule fold_pointwise [where P = "\<lambda>h. ids Category h = ids Category g"])
  fix r and h :: graph assume "ids Category h = ids Category g"
  then show "rels (product_stmt r h) k =
      (if in_category_key (ids Category g) r k then touch Map.empty (\<lambda>ps. ps) (rels h k)
       else rels h k)"
    by (simp add: rels_product_stmt)
  show "ids Category (product_stmt r h) = ids Category g"
    using ids_fold_product [of Category "[r]" h] \<open>ids Category h = ids Category g\<close> by simp
qed simp

lemma rels_fold_order:
  "rels (fold order_stmt rows g) k =
     touches (\<lambda>r. placed_key (ids Customer g) r k) (\<lambda>r. Map.empty) (\<lambda>r ps. ps) rows
       (rels g k)"
proof (rule fold_pointwise [where P = "\<lambda>h. ids Customer h = ids Customer g"])
  fix r and h :: graph assume "ids Customer h = ids Customer g"
  then show "rels (order_stmt r h) k =
      (if placed_key (ids Customer g) r k then touch Map.empty (\<lambda>ps. ps) (rels h k)
       else rels h k)"
    by (simp add: rels_order_stmt)
  show "ids Customer (order_stmt r h) = ids Customer g"
    using ids_fold_order [of Customer "[r]" h] \<open>ids Customer h = ids Customer g\<close> by simp
qed simp

lemma rels_fold_order_item:
  "rels (fold order_item_stmt rows g) k =
     touches (\<lambda>r. contains_key (ids Order g) (ids Product g) r k) (\<lambda>r. Map.empty)
       (\<lambda>r ps. ps(''quantity'' := oi_quantity r)) rows (rels g k)"
proof (rule fold_pointwise [where P = "\<lambda>h. nodes h = nodes g"])
  fix r and h :: graph assume "nodes h = nodes g"
  then show "rels (order_item_stmt r h) k =
      (if contains_key (ids Order g) (ids Product g) r k
       then touch Map.empty (\<lambda>ps. ps(''quantity'' := oi_quantity r)) (rels h k)
       else rels h k)"
    by (simp add: rels_order_item_stmt ids_def)
  show "nodes (order_item_stmt r h) = nodes g"
    using \<open>nodes h = nodes g\<close> by (simp add: nodes_order_item_stmt)
qed simp

lemma rels_fold_event:
  "rels (fold (event_stmt t) rows g) k =
     touches (\<lambda>r. event_hit (ids Customer g) (ids Product g) t r k) (\<lambda>r. Map.empty)
       (\<lambda>r ps. ps(''ts'' := ev_ts r)) rows (rels g k)"
proof (rule fold_pointwise [where P = "\<lambda>h. nodes h = nodes g"])
  fix r and h :: graph assume "nodes h = nodes g"
  then show "rels (event_stmt t r h) k =
      (if event_hit (ids Customer g) (ids Product g) t r k
       then touch Map.empty (\<lambda>ps. ps(''ts'' := ev_ts r)) (rels h k)
       else rels h k)"
    by (simp add: rels_event_stmt ids_def)
  show "nodes (event_stmt t r h) = nodes g"
    using \<open>nodes h = nodes g\<close> by (simp add: nodes_event_stmt)
qed simp

subsection \<open>The whole load\<close>

lemma graph_eqI: "nodes g = nodes h \<Longrightarrow> rels g = rels h \<Longrightarrow> g = h" for g h :: graph
  by simp

lemma nodes_load_events: "nodes (load_events evs g) = nodes g"
  by (simp add: load_events_def nodes_fold_event)

lemma ids_load_events: "ids l (load_events evs g) = ids l g"
  by (simp add: ids_def nodes_load_events)

lemma rels_load_events:
  "rels (load_events evs g) k = events_after (ids Customer g) (ids Product g) evs k (rels g k)"
  by (simp add: load_events_def events_after_def rels_fold_event ids_fold_event)

lemma nodes_load_store: "nodes (load_store t g) k = node_after t k (nodes g k)"
  by (simp add: load_store_def node_after_def nodes_load_events nodes_fold_order_item
      nodes_fold_order nodes_fold_customer nodes_fold_product nodes_fold_category)

lemma ids_load_store: "ids l (load_store t g) = ids l g \<union> table_ids l t"
  by (cases l)
     (simp_all add: load_store_def table_ids_def ids_load_events ids_fold_order_item
        ids_fold_order ids_fold_customer ids_fold_product ids_fold_category)

lemma rels_load_store:
  "rels (load_store t g) k = rel_after (\<lambda>l. ids l g \<union> table_ids l t) t k (rels g k)"
  by (simp add: load_store_def rel_after_def rels_load_events rels_fold_order_item
      rels_fold_order rels_fold_customer rels_fold_product rels_fold_category
      ids_fold_order_item ids_fold_order ids_fold_customer ids_fold_product ids_fold_category
      table_ids_def)

lemma node_after_idem: "node_after t k (node_after t k v) = node_after t k v"
proof -
  obtain l i where k: "k = (l, i)" by (cases k)
  show ?thesis
    unfolding node_after_def k
    by (cases l) (simp_all add: touches_no_hit touches_idem)
qed

lemma other_type_no_hit:
  "ty \<noteq> IN_CATEGORY \<Longrightarrow> \<not> in_category_key cs r1 (a, ty, b)"
  "ty \<noteq> PLACED \<Longrightarrow> \<not> placed_key cs r2 (a, ty, b)"
  "ty \<noteq> CONTAINS \<Longrightarrow> \<not> contains_key os ps r3 (a, ty, b)"
  "ty \<noteq> ty' \<Longrightarrow> \<not> event_hit cs ps ty' r4 (a, ty, b)"
  by (auto simp: in_category_key_def placed_key_def contains_key_def event_hit_def)

lemma rel_after_idem: "rel_after ns t k (rel_after ns t k v) = rel_after ns t k v"
proof -
  obtain a ty b where k: "k = (a, ty, b)" by (cases k)
  show ?thesis
    unfolding rel_after_def events_after_def k
    by (cases ty) (simp_all add: touches_no_hit touches_idem other_type_no_hit)
qed

lemma load_store_idem: "load_store t (load_store t g) = load_store t g"
proof (rule graph_eqI)
  show "nodes (load_store t (load_store t g)) = nodes (load_store t g)"
    by (rule ext) (simp add: nodes_load_store node_after_idem)
  have "(\<lambda>l. ids l (load_store t g) \<union> table_ids l t) = (\<lambda>l. ids l g \<union> table_ids l t)"
    by (rule ext) (auto simp: ids_load_store)
  then show "rels (load_store t (load_store t g)) = rels (load_store t g)"
    by (intro ext) (simp add: rels_load_store rel_after_idem)
qed

subsection \<open>One table, one row\<close>

lemma fold_category_idem:
  "fold category_stmt rows (fold category_stmt rows g) = fold category_stmt rows g"
  by (rule graph_eqI)
     (auto simp: nodes_fold_category rels_fold_category touches_idem)

lemma fold_product_idem:
  "fold product_stmt rows (fold product_stmt rows g) = fold product_stmt rows g"
  by (rule graph_eqI)
     (auto simp: nodes_fold_product rels_fold_product ids_fold_product touches_idem)

lemma fold_customer_idem:
  "fold customer_stmt rows (fold customer_stmt rows g) = fold customer_stmt rows g"
  by (rule graph_eqI)
     (auto simp: nodes_fold_customer rels_fold_customer touches_idem)

lemma fold_order_idem:
  "fold order_stmt rows (fold order_stmt rows g) = fold order_stmt rows g"
  by (rule graph_eqI)
     (auto simp: nodes_fold_order rels_fold_order ids_fold_order touches_idem)

lemma fold_order_item_idem:
  "fold order_item_stmt rows (fold order_item_stmt rows g) = fold order_item_stmt rows g"
  by (rule graph_eqI)
     (auto simp: nodes_fold_order_item rels_fold_order_item ids_fold_order_item touches_idem)

lemma fold_event_idem:
  "fold (event_stmt ty) rows (fold (event_stmt ty) rows g) = fold (event_stmt ty) rows g"
  by (rule graph_eqI)
     (auto simp: nodes_fold_event rels_fold_event ids_fold_event touches_idem)

text \<open>
  Claim C2. Run on the store a first load phase left, from the same tables, the load phase
  leaves that store as it is: the same nodes with the same properties and the same
  relationships with the same properties, so the same counts. This holds from any store, and
  for a load phase in which no call raises it holds of the runs themselves: both return
  normally and the second changes nothing. Each upsert is idempotent by itself as well:
  a node upsert on its id, a relationship upsert on its endpoints and type.
\<close>

theorem load_idempotent:
  "load_store t (load_store t g) = load_store t g
   \<and> ((\<forall>h c. \<not> raises env h c) \<longrightarrow>
        (\<exists>w1 w2. load_phase env t w = (Inr (), w1) \<and> load_phase env t w1 = (Inr (), w2)
           \<and> store w1 = load_store t (store w) \<and> store w2 = store w1))
   \<and> category_stmt r1 (category_stmt r1 g) = category_stmt r1 g
   \<and> product_stmt r2 (product_stmt r2 g) = product_stmt r2 g
   \<and> customer_stmt r3 (customer_stmt r3 g) = customer_stmt r3 g
   \<and> order_stmt r4 (order_stmt r4 g) = order_stmt r4 g
   \<and> order_item_stmt r5 (order_item_stmt r5 g) = order_item_stmt r5 g
   \<and> event_stmt ty r6 (event_stmt ty r6 g) = event_stmt ty r6 g"
proof -
  have runs: "\<exists>w1 w2. load_phase env t w = (Inr (), w1) \<and> load_phase env t w1 = (Inr (), w2)
           \<and> store w1 = load_store t (store w) \<and> store w2 = store w1"
    if "\<forall>h c. \<not> raises env h c"
  proof -
    have ok: "\<And>h c. \<not> raises env h c" using that by blast
    let ?w1 = "w\<lparr>store := load_store t (store w), trace := trace w @ load_calls t\<rparr>"
    let ?w2 = "?w1\<lparr>store := load_store t (store ?w1), trace := trace ?w1 @ load_calls t\<rparr>"
    have "load_phase env t w = (Inr (), ?w1)" "load_phase env t ?w1 = (Inr (), ?w2)"
      by (rule load_phase_ok [OF ok])+
    moreover have "store ?w1 = load_store t (store w)" "store ?w2 = store ?w1"
      by (simp_all add: load_store_idem)
    ultimately show ?thesis by blast
  qed
  show ?thesis
    using load_store_idem [of t g] runs
      fold_category_idem [of "[r1]" g] fold_product_idem [of "[r2]" g]
      fold_customer_idem [of "[r3]" g] fold_order_idem [of "[r4]" g]
      fold_order_item_idem [of "[r5]" g] fold_event_idem [of ty "[r6]" g]
    by simp
qed

lemma shop_store:
  "nodes (load_store shop_tables empty_graph) (Category, 10)
     = Some [''id'' \<mapsto> IntV 10, ''name'' \<mapsto> StrV ''Books'']"
  "nodes (load_store shop_tables empty_graph) (Product, 100)
     = Some [''id'' \<mapsto> IntV 100, ''name'' \<mapsto> StrV ''Atlas'', ''price'' \<mapsto> IntV 5]"
  "rels (load_store shop_tables empty_graph) ((Product, 100), IN_CATEGORY, (Category, 10))
     = Some Map.empty"
  "rels (load_store shop_tables empty_graph) ((Customer, 1), PLACED, (Order, 1000))
     = Some Map.empty"
  "rels (load_store shop_tables empty_graph) ((Order, 1000), CONTAINS, (Product, 100))
     = Some [''quantity'' \<mapsto> IntV 3]"
  "rels (load_store shop_tables empty_graph) ((Customer, 1), VIEW, (Product, 100))
     = Some [''ts'' \<mapsto> StrV ''2024-02-02'']"
  by (simp_all add: nodes_load_store rels_load_store node_after_def rel_after_def
      events_after_def shop_tables_def empty_graph_def touches_def touch_def
      events_of_type_def table_ids_def ids_def in_category_key_def placed_key_def
      contains_key_def event_hit_def)

theorem load_idempotent_witness:
  "(\<forall>h c. \<not> raises (sample_env ''A'' shop_tables (\<lambda>h c. False)) h c)
   \<and> load_store shop_tables (load_store shop_tables empty_graph) = load_store shop_tables empty_graph
   \<and> (\<exists>w1 w2. load_phase (sample_env ''A'' shop_tables (\<lambda>h c. False)) shop_tables fresh_world
            = (Inr (), w1)
         \<and> load_phase (sample_env ''A'' shop_tables (\<lambda>h c. False)) shop_tables w1 = (Inr (), w2)
         \<and> store w1 = load_store shop_tables empty_graph \<and> store w2 = store w1)
   \<and> rels (load_store shop_tables empty_graph) ((Order, 1000), CONTAINS, (Product, 100))
       = Some [''quantity'' \<mapsto> IntV 3]"
proof -
  let ?e = "sample_env ''A'' shop_tables (\<lambda>h c. False)"
  have ok: "\<forall>h c. \<not> raises ?e h c"
    by (simp add: sample_env_def)
  have s: "store fresh_world = empty_graph"
    by (simp add: fresh_world_def)
  show ?thesis
    using load_idempotent [of shop_tables empty_graph ?e fresh_world] ok shop_store(5)
    unfolding s by blast
qed

section \<open>Event relationships created\<close>

lemma event_hit_valid:
  assumes "\<not> missing Customer (ev_customer_id e) g" "\<not> missing Product (ev_product_id e) g"
  shows "event_hit (ids Customer g) (ids Product g) t e k \<longleftrightarrow>
    (\<exists>c p. ev_customer_id e = Some c \<and> ev_product_id e = Some p
        \<and> k = ((Customer, c), t, (Product, p)))"
  using assms by (auto simp: event_hit_def missing_def ids_def split: option.splits)

lemma event_key_iff:
  "event_key e = Some k \<longleftrightarrow>
     (\<exists>t c p. event_kind e = Some t \<and> ev_customer_id e = Some c \<and> ev_product_id e = Some p
        \<and> k = ((Customer, c), t, (Product, p)))"
  by (auto simp: event_key_def split: option.splits)

lemma event_kind_iff:
  "event_kind e = Some VIEW \<longleftrightarrow> ev_event_type e = Some ''view''"
  "event_kind e = Some CLICK \<longleftrightarrow> ev_event_type e = Some ''click''"
  "event_kind e = Some ADD_TO_CART \<longleftrightarrow> ev_event_type e = Some ''add_to_cart''"
  by (simp_all add: event_kind_def)

lemma event_kind_cases:
  "event_kind e = Some t \<Longrightarrow> t = VIEW \<or> t = CLICK \<or> t = ADD_TO_CART"
  by (auto simp: event_kind_def split: if_splits)

lemma rels_load_events_dom:
  assumes "\<forall>e \<in> set evs. \<not> missing Customer (ev_customer_id e) g
              \<and> \<not> missing Product (ev_product_id e) g"
  shows "rels (load_events evs g) k \<noteq> None \<longleftrightarrow>
     rels g k \<noteq> None \<or> (\<exists>e \<in> set evs. event_key e = Some k)"
proof -
  have hit: "(\<exists>r \<in> set (events_of_type s evs). event_hit (ids Customer g) (ids Product g) t r k)
      \<longleftrightarrow> (\<exists>e \<in> set evs. ev_event_type e = Some s
             \<and> (\<exists>c p. ev_customer_id e = Some c \<and> ev_product_id e = Some p
                  \<and> k = ((Customer, c), t, (Product, p))))" for s t
    using assms by (auto simp: events_of_type_def event_hit_valid)
  have "(\<exists>e \<in> set evs. event_key e = Some k) \<longleftrightarrow>
      (\<exists>e \<in> set evs. \<exists>t. event_kind e = Some t
         \<and> (\<exists>c p. ev_customer_id e = Some c \<and> ev_product_id e = Some p
              \<and> k = ((Customer, c), t, (Product, p))))"
    by (auto simp: event_key_iff)
  also have "\<dots> \<longleftrightarrow>
      (\<exists>e \<in> set evs. ev_event_type e = Some ''view''
         \<and> (\<exists>c p. ev_customer_id e = Some c \<and> ev_product_id e = Some p
              \<and> k = ((Customer, c), VIEW, (Product, p))))
    \<or> (\<exists>e \<in> set evs. ev_event_type e = Some ''click''
         \<and> (\<exists>c p. ev_customer_id e = Some c \<and> ev_product_id e = Some p
              \<and> k = ((Customer, c), CLICK, (Product, p))))
    \<or> (\<exists>e \<in> set evs. ev_event_type e = Some ''add_to_cart''
         \<and> (\<exists>c p. ev_customer_id e = Some c \<and> ev_product_id e = Some p
              \<and> k = ((Customer, c), ADD_TO_CART, (Product, p))))"
    (is "?l \<longleftrightarrow> ?r")
  proof
    assume ?l
    then obtain e t where "e \<in> set evs" "event_kind e = Some t"
      "\<exists>c p. ev_customer_id e = Some c \<and> ev_product_id e = Some p
              \<and> k = ((Customer, c), t, (Product, p))"
      by blast
    then show ?r
      using event_kind_cases [of e t] event_kind_iff [of e] by blast
  next
    assume ?r
    then show ?l
      using event_kind_iff by blast
  qed
  finally show ?thesis
    unfolding rels_load_events events_after_def touches_dom hit by blast
qed

lemma event_key_kind: "event_key e = Some k \<Longrightarrow> fst (snd k) \<in> {VIEW, CLICK, ADD_TO_CART}"
proof -
  assume "event_key e = Some k"
  then obtain t c p where "event_kind e = Some t" "k = ((Customer, c), t, (Product, p))"
    unfolding event_key_iff by blast
  then show ?thesis
    using event_kind_cases [of e t] by auto
qed

lemma event_edges_load_events:
  assumes "\<forall>e \<in> set evs. \<not> missing Customer (ev_customer_id e) g
              \<and> \<not> missing Product (ev_product_id e) g"
  shows "event_edges (load_events evs g) = event_edges g \<union> {k. \<exists>e \<in> set evs. event_key e = Some k}"
proof -
  have "k \<in> event_edges (load_events evs g) \<longleftrightarrow>
      k \<in> event_edges g \<union> {k. \<exists>e \<in> set evs. event_key e = Some k}" for k
    using rels_load_events_dom [OF assms, of k] event_key_kind [of _ k]
    by (auto simp: event_edges_def dom_def)
  then show ?thesis by blast
qed


lemma event_keys_card_le:
  "card {k. \<exists>e \<in> set evs. event_key e = Some k} \<le> length evs"
proof -
  let ?K = "{k. \<exists>e \<in> set evs. event_key e = Some k}"
  have sub: "Some ` ?K \<subseteq> set (map event_key evs)"
    by force
  have "card ?K = card (Some ` ?K)"
    by (simp add: card_image)
  also have "\<dots> \<le> card (set (map event_key evs))"
    using sub by (intro card_mono) simp_all
  also have "\<dots> \<le> length evs"
    using card_length [of "map event_key evs"] by simp
  finally show ?thesis .
qed

lemma event_keys_finite: "finite {k. \<exists>e \<in> set evs. event_key e = Some k}"
proof -
  have "{k. \<exists>e \<in> set evs. event_key e = Some k} \<subseteq> the ` set (map event_key evs)"
    by force
  then show ?thesis
    by (rule finite_subset) simp
qed

lemma event_keys_card_eq:
  assumes "\<forall>e \<in> set evs. event_key e \<noteq> None" "distinct (map event_key evs)"
  shows "card {k. \<exists>e \<in> set evs. event_key e = Some k} = length evs"
proof -
  let ?K = "{k. \<exists>e \<in> set evs. event_key e = Some k}"
  have "Some ` ?K = set (map event_key evs)"
    using assms(1) by force
  then have "card (Some ` ?K) = length evs"
    using assms(2) distinct_card [of "map event_key evs"] by simp
  then show ?thesis
    by (simp add: card_image)
qed

lemma event_key_valid:
  assumes "\<not> missing Customer (ev_customer_id e) g" "\<not> missing Product (ev_product_id e) g"
    "event_kind e \<noteq> None"
  shows "event_key e \<noteq> None"
  using assms by (auto simp: event_key_def missing_def split: option.splits)

lemma filters_partition:
  "length (events_of_type ''view'' evs) + length (events_of_type ''click'' evs)
     + length (events_of_type ''add_to_cart'' evs)
   = length (filter (\<lambda>e. event_kind e \<noteq> None) evs)"
  by (induction evs) (auto simp: events_of_type_def event_kind_def)

text \<open>
  Claim C3, as the code has it. When every event row has its customer and its product in
  the store, the event relationships after step 8 are those before it and one per distinct
  customer, product and kind among the rows of type \<open>view\<close>, \<open>click\<close> or \<open>add_to_cart\<close>:
  \<open>MERGE\<close> makes one relationship for all the rows that share them. So never more
  relationships are created than there are rows, and exactly as many when every row has one
  of the three types, no two rows share customer, product and type, and none of these
  relationships was in the store. No row is selected by two of the three filters, and the
  three selections together hold the rows of the three types, each once.
\<close>

theorem event_edges_created:
  assumes "\<forall>e \<in> set evs. \<not> missing Customer (ev_customer_id e) g
              \<and> \<not> missing Product (ev_product_id e) g"
  shows "event_edges (load_events evs g)
      = event_edges g \<union> {k. \<exists>e \<in> set evs. event_key e = Some k}
    \<and> card (event_edges (load_events evs g) - event_edges g) \<le> length evs
    \<and> ((\<forall>e \<in> set evs. event_kind e \<noteq> None) \<and> distinct (map event_key evs)
        \<and> (\<forall>e \<in> set evs. \<forall>k. event_key e = Some k \<longrightarrow> k \<notin> event_edges g)
       \<longrightarrow> card (event_edges (load_events evs g) - event_edges g) = length evs)
    \<and> set (events_of_type ''view'' evs) \<inter> set (events_of_type ''click'' evs) = {}
    \<and> set (events_of_type ''view'' evs) \<inter> set (events_of_type ''add_to_cart'' evs) = {}
    \<and> set (events_of_type ''click'' evs) \<inter> set (events_of_type ''add_to_cart'' evs) = {}
    \<and> length (events_of_type ''view'' evs) + length (events_of_type ''click'' evs)
         + length (events_of_type ''add_to_cart'' evs)
       = length (filter (\<lambda>e. event_kind e \<noteq> None) evs)"
proof -
  let ?K = "{k. \<exists>e \<in> set evs. event_key e = Some k}"
  have edges: "event_edges (load_events evs g) = event_edges g \<union> ?K"
    by (rule event_edges_load_events [OF assms])
  have diff: "event_edges (load_events evs g) - event_edges g = ?K - event_edges g"
    unfolding edges by blast
  have "card (?K - event_edges g) \<le> card ?K"
    by (intro card_mono event_keys_finite) blast
  then have le: "card (event_edges (load_events evs g) - event_edges g) \<le> length evs"
    unfolding diff using event_keys_card_le [of evs] by linarith
  have eq: "card (event_edges (load_events evs g) - event_edges g) = length evs"
    if h: "(\<forall>e \<in> set evs. event_kind e \<noteq> None) \<and> distinct (map event_key evs)
        \<and> (\<forall>e \<in> set evs. \<forall>k. event_key e = Some k \<longrightarrow> k \<notin> event_edges g)"
  proof -
    have "\<forall>e \<in> set evs. event_key e \<noteq> None"
      using assms h event_key_valid by blast
    then have "card ?K = length evs"
      using h by (intro event_keys_card_eq) simp_all
    moreover have "?K - event_edges g = ?K"
      using h by blast
    ultimately show ?thesis
      unfolding diff by simp
  qed
  have disj: "set (events_of_type ''view'' evs) \<inter> set (events_of_type ''click'' evs) = {}"
    "set (events_of_type ''view'' evs) \<inter> set (events_of_type ''add_to_cart'' evs) = {}"
    "set (events_of_type ''click'' evs) \<inter> set (events_of_type ''add_to_cart'' evs) = {}"
    by (auto simp: events_of_type_def)
  from edges le eq disj filters_partition [of evs] show ?thesis
    by blast
qed


lemma shop_nodes_valid:
  "\<not> missing Customer (Some 1) shop_nodes" "\<not> missing Product (Some 100) shop_nodes"
  "event_edges shop_nodes = {}"
  by (simp_all add: missing_def shop_nodes_def event_edges_def)

theorem event_edges_created_witness:
  "\<not> missing Customer (Some 1) shop_nodes \<and> \<not> missing Product (Some 100) shop_nodes
   \<and> map ev_customer_id mixed_events = [Some 1, Some 1, Some 1]
   \<and> map ev_product_id mixed_events = [Some 100, Some 100, Some 100]
   \<and> map event_kind mixed_events = [Some VIEW, Some CLICK, Some ADD_TO_CART]
   \<and> distinct (map event_key mixed_events)
   \<and> event_edges shop_nodes = {}
   \<and> event_edges (load_events mixed_events shop_nodes)
       = {((Customer, 1), VIEW, (Product, 100)), ((Customer, 1), CLICK, (Product, 100)),
          ((Customer, 1), ADD_TO_CART, (Product, 100))}
   \<and> card (event_edges (load_events mixed_events shop_nodes) - event_edges shop_nodes) = 3
   \<and> length mixed_events = 3"
proof -
  have v: "\<forall>e \<in> set mixed_events. \<not> missing Customer (ev_customer_id e) shop_nodes
              \<and> \<not> missing Product (ev_product_id e) shop_nodes"
    using shop_nodes_valid by (simp add: mixed_events_def)
  have k: "map event_kind mixed_events = [Some VIEW, Some CLICK, Some ADD_TO_CART]"
    by (simp add: mixed_events_def event_kind_def)
  have keys: "map event_key mixed_events =
      [Some ((Customer, 1), VIEW, (Product, 100)), Some ((Customer, 1), CLICK, (Product, 100)),
       Some ((Customer, 1), ADD_TO_CART, (Product, 100))]"
    by (simp add: mixed_events_def event_key_def event_kind_def)
  have d: "distinct (map event_key mixed_events)"
    unfolding keys by simp
  have ids: "map ev_customer_id mixed_events = [Some 1, Some 1, Some 1]"
    "map ev_product_id mixed_events = [Some 100, Some 100, Some 100]"
    "length mixed_events = 3"
    by (simp_all add: mixed_events_def)
  have ks: "{k. \<exists>e \<in> set mixed_events. event_key e = Some k}
      = {((Customer, 1), VIEW, (Product, 100)), ((Customer, 1), CLICK, (Product, 100)),
          ((Customer, 1), ADD_TO_CART, (Product, 100))}"
  proof -
    have "{k. \<exists>e \<in> set mixed_events. event_key e = Some k}
        = {k. Some k \<in> set (map event_key mixed_events)}"
      by force
    then show ?thesis unfolding keys by auto
  qed
  have h: "(\<forall>e \<in> set mixed_events. event_kind e \<noteq> None) \<and> distinct (map event_key mixed_events)
        \<and> (\<forall>e \<in> set mixed_events. \<forall>k. event_key e = Some k \<longrightarrow> k \<notin> event_edges shop_nodes)"
    using d by (simp add: shop_nodes_valid(3)) (simp add: mixed_events_def event_kind_def)
  note T = event_edges_created [OF v]
  have e: "event_edges (load_events mixed_events shop_nodes)
       = {((Customer, 1), VIEW, (Product, 100)), ((Customer, 1), CLICK, (Product, 100)),
          ((Customer, 1), ADD_TO_CART, (Product, 100))}"
    using T [THEN conjunct1] unfolding ks shop_nodes_valid(3) by simp
  have c: "card (event_edges (load_events mixed_events shop_nodes) - event_edges shop_nodes) = 3"
    using T [THEN conjunct2, THEN conjunct2, THEN conjunct1, rule_format, OF h] ids(3) by simp
  from shop_nodes_valid ids k d e c show ?thesis by blast
qed

theorem event_edges_count_counterexample:
  "\<not> missing Customer (Some 1) shop_nodes \<and> \<not> missing Product (Some 100) shop_nodes
   \<and> map ev_customer_id two_views = [Some 1, Some 1]
   \<and> map ev_product_id two_views = [Some 100, Some 100]
   \<and> map ev_event_type two_views = [Some ''view'', Some ''view'']
   \<and> event_edges shop_nodes = {}
   \<and> event_edges (load_events two_views shop_nodes) = {((Customer, 1), VIEW, (Product, 100))}
   \<and> card (event_edges (load_events two_views shop_nodes) - event_edges shop_nodes) = 1
   \<and> length two_views = 2"
proof -
  have v: "\<forall>e \<in> set two_views. \<not> missing Customer (ev_customer_id e) shop_nodes
              \<and> \<not> missing Product (ev_product_id e) shop_nodes"
    using shop_nodes_valid by (simp add: two_views_def)
  have keys: "map event_key two_views =
      [Some ((Customer, 1), VIEW, (Product, 100)), Some ((Customer, 1), VIEW, (Product, 100))]"
    by (simp add: two_views_def event_key_def event_kind_def)
  have ks: "{k. \<exists>e \<in> set two_views. event_key e = Some k} = {((Customer, 1), VIEW, (Product, 100))}"
  proof -
    have "{k. \<exists>e \<in> set two_views. event_key e = Some k}
        = {k. Some k \<in> set (map event_key two_views)}"
      by force
    then show ?thesis unfolding keys by auto
  qed
  have e: "event_edges (load_events two_views shop_nodes) = {((Customer, 1), VIEW, (Product, 100))}"
    using event_edges_load_events [OF v] unfolding ks shop_nodes_valid(3) by simp
  have i: "map ev_customer_id two_views = [Some 1, Some 1]"
    "map ev_product_id two_views = [Some 100, Some 100]"
    "map ev_event_type two_views = [Some ''view'', Some ''view'']"
    "length two_views = 2"
    by (simp_all add: two_views_def)
  have c: "card (event_edges (load_events two_views shop_nodes) - event_edges shop_nodes) = 1"
    unfolding e shop_nodes_valid(3) by simp
  from shop_nodes_valid i e c show ?thesis by blast
qed

end
